theory Spec2Isabelle
  imports Main "HOL-Library.Word"
begin

unbundle bit_operations_syntax

section \<open>Data model of search.go\<close>

text \<open>
  The repository's \<^verbatim>\<open>search.go\<close> holds two revisions of the search code: package
  \<^verbatim>\<open>zoekt\<close> (the content provider, the line assembler, the scorer and the sort
  wrappers) and package \<^verbatim>\<open>codesearch\<close> (the document iterator and the candidate
  match with its case check). Go's \<^verbatim>\<open>uint32\<close> is \<open>32 word\<close>, a \<^verbatim>\<open>byte\<close> is
  \<open>8 word\<close>, Go's 64-bit \<^verbatim>\<open>int\<close> is \<open>int\<close> (every \<^verbatim>\<open>int\<close> of this file is
  an index or a length derived from a \<^verbatim>\<open>uint32\<close> or a slice length, far from the
  64-bit bound). A slice that the code compares with \<^verbatim>\<open>nil\<close> is a \<open>list option\<close>,
  \<open>None\<close> being \<^verbatim>\<open>nil\<close>. A run-time panic is a value of type \<open>panic\<close>.
\<close>

type_synonym u8 = "8 word"
type_synonym u32 = "32 word"

datatype error = DecodeError

datatype panic = IndexOutOfRange | SliceBoundsOutOfRange | NegativeLen

record DocumentSection =
  Start :: u32
  End :: u32

text \<open>
  \<^verbatim>\<open>Stats\<close> is declared outside \<^verbatim>\<open>search.go\<close>; the code increments
  \<^verbatim>\<open>FilesLoaded\<close> and adds an \<^verbatim>\<open>int64\<close> to \<^verbatim>\<open>BytesLoaded\<close>.
\<close>

record Stats =
  FilesLoaded :: int
  BytesLoaded :: int

text \<open>
  \<^verbatim>\<open>indexData\<close> is declared outside \<^verbatim>\<open>search.go\<close>. The code reads its field
  \<^verbatim>\<open>fileEnds\<close> and the four filename tables, and calls its readers
  \<^verbatim>\<open>readDocSections\<close>, \<^verbatim>\<open>readNewlines\<close>, \<^verbatim>\<open>readContents\<close>,
  \<^verbatim>\<open>readCaseBits\<close> and \<^verbatim>\<open>fileName\<close>; each reader is a field here, a function
  of the document index that returns the slice and the error of the Go call (the
  reader \<^verbatim>\<open>fileName\<close> is the field \<open>id_fileName\<close>). \<^verbatim>\<open>readNewlines\<close> also takes
  a buffer to reuse, which has no part in what it returns.
\<close>

record indexData =
  fileEnds :: "u32 list"
  readDocSections :: "u32 \<Rightarrow> DocumentSection list option \<times> error option"
  readNewlines :: "u32 \<Rightarrow> u32 list option \<times> error option"
  readContents :: "u32 \<Rightarrow> u8 list option \<times> error option"
  readCaseBits :: "u32 \<Rightarrow> u8 list option \<times> error option"
  id_fileName :: "u32 \<Rightarrow> u8 list"
  fileNameContent :: "u8 list"
  fileNameIndex :: "u32 list"
  fileNameCaseBits :: "u8 list"
  fileNameCaseBitsIndex :: "u32 list"

text \<open>
  \<^verbatim>\<open>contentProvider\<close>: the fields \<^verbatim>\<open>_cb\<close>, \<^verbatim>\<open>_data\<close>, \<^verbatim>\<open>_nl\<close>,
  \<^verbatim>\<open>_nlBuf\<close> and \<^verbatim>\<open>_sects\<close> are \<open>p_cb\<close> ... \<open>p_sects\<close>; \<^verbatim>\<open>id\<close> is
  \<open>id'\<close>. The \<^verbatim>\<open>*Stats\<close> pointer is the field \<open>stats\<close> of the state.
\<close>

record contentProvider =
  id' :: indexData
  stats :: Stats
  err :: "error option"
  idx :: u32
  p_cb :: "u8 list option"
  p_data :: "u8 list option"
  p_nl :: "u32 list option"
  p_nlBuf :: "u32 list option"
  p_sects :: "DocumentSection list option"
  fileSize :: u32

text \<open>Indexing a slice panics out of range.\<close>

definition index :: "'a list \<Rightarrow> nat \<Rightarrow> panic + 'a" where
  "index xs i = (if i < length xs then Inr (xs ! i) else Inl IndexOutOfRange)"

text \<open>
  The slice expression \<^verbatim>\<open>xs[lo:hi]\<close>; the bounds are checked against the length
  (a slice's capacity is taken to be its length).
\<close>

definition sliceRange :: "'a list \<Rightarrow> nat \<Rightarrow> nat \<Rightarrow> panic + 'a list" where
  "sliceRange xs lo hi =
     (if lo \<le> hi \<and> hi \<le> length xs then Inr (take (hi - lo) (drop lo xs))
      else Inl SliceBoundsOutOfRange)"

text \<open>A slice that may be \<^verbatim>\<open>nil\<close>, read as a list: \<^verbatim>\<open>nil\<close> has length 0.\<close>

definition slice_of :: "'a list option \<Rightarrow> 'a list" where
  "slice_of r = (case r of None \<Rightarrow> [] | Some xs \<Rightarrow> xs)"

subsection \<open>setDocument\<close>


subsection \<open>findSection\<close>

text \<open>
  Go's \<^verbatim>\<open>sort.Search(n, f)\<close> is the binary search of the standard library:
  \<^verbatim>\<open>i, j := 0, n; for i < j { h := int(uint(i+j) >> 1); if !f(h) { i = h + 1 } else { j = h } }; return i\<close>.
  It calls \<^verbatim>\<open>f\<close> only at indices below \<^verbatim>\<open>n\<close>.
\<close>

function sort_Search_loop :: "(nat \<Rightarrow> bool) \<Rightarrow> nat \<Rightarrow> nat \<Rightarrow> nat" where
  "sort_Search_loop f i j =
     (if i < j
      then (if \<not> f ((i + j) div 2)
            then sort_Search_loop f ((i + j) div 2 + 1) j
            else sort_Search_loop f i ((i + j) div 2))
      else i)"
  by pat_completeness auto
termination
  by (relation "measure (\<lambda>(f, i, j). j - i)") auto

declare sort_Search_loop.simps [simp del]

definition sort_Search :: "nat \<Rightarrow> (nat \<Rightarrow> bool) \<Rightarrow> nat" where
  "sort_Search n f = sort_Search_loop f 0 n"

definition findSection :: "DocumentSection list \<Rightarrow> u32 \<Rightarrow> u32 \<Rightarrow> DocumentSection option" where
  "findSection secs off sz =
     (let j = sort_Search (length secs) (\<lambda>i. End (secs ! i) \<ge> off + sz)
      in if j = length secs then None
         else if Start (secs ! j) \<le> off \<and> off + sz \<le> End (secs ! j) then Some (secs ! j)
         else None)"

text \<open>
  The invariant of a document's section table, as the data model states it: sorted
  ascending by \<^verbatim>\<open>End\<close>, and no two \<^verbatim>\<open>[Start, End)\<close> ranges overlap. Two half-open
  ranges overlap when the larger start lies below the smaller end. \<open>sorted_wrt R\<close> says
  that \<open>R\<close> holds of every pair of the list, taken in list order.
\<close>

definition overlap :: "DocumentSection \<Rightarrow> DocumentSection \<Rightarrow> bool" where
  "overlap a b \<longleftrightarrow> max (Start a) (Start b) < min (End a) (End b)"

definition sortedByEnd :: "DocumentSection list \<Rightarrow> bool" where
  "sortedByEnd secs \<longleftrightarrow> sorted_wrt (\<lambda>a b. End a \<le> End b) secs"

definition nonOverlapping :: "DocumentSection list \<Rightarrow> bool" where
  "nonOverlapping secs \<longleftrightarrow> sorted_wrt (\<lambda>a b. \<not> overlap a b) secs"

definition nonEmptySections :: "DocumentSection list \<Rightarrow> bool" where
  "nonEmptySections secs \<longleftrightarrow> list_all (\<lambda>s. Start s < End s) secs"

text \<open>
  A section fully contains the byte range \<^verbatim>\<open>[off, off+sz)\<close>; the sum is taken in the
  natural numbers.
\<close>

definition sectionContains :: "DocumentSection \<Rightarrow> u32 \<Rightarrow> u32 \<Rightarrow> bool" where
  "sectionContains s off sz \<longleftrightarrow>
     unat (Start s) \<le> unat off \<and> unat off + unat sz \<le> unat (End s)"

subsection \<open>The scorer\<close>

text \<open>
  \<^verbatim>\<open>MatchFragment\<close> and \<^verbatim>\<open>Match\<close> are declared outside \<^verbatim>\<open>search.go\<close>; the fields
  are the ones the code assigns and reads, with the types of the assigned values.
  \<^verbatim>\<open>Score\<close> is a \<^verbatim>\<open>float64\<close>: the score constants are whole numbers and every sum the
  scorer forms is a whole number below 8000, which \<^verbatim>\<open>float64\<close> holds exactly, so the
  scores are integers here.
\<close>

record MatchFragment =
  LineOff :: int
  MatchLength :: int
  Offset :: u32

record Match =
  Line :: "u8 list"
  LineStart :: int
  LineEnd :: int
  LineNum :: int
  FileName :: bool
  Fragments :: "MatchFragment list"
  Score :: int

definition scorePartialWordMatch :: int where "scorePartialWordMatch = 50"
definition scoreWordMatch :: int where "scoreWordMatch = 500"
definition scoreImportantThreshold :: int where "scoreImportantThreshold = 2000"
definition scorePartialSymbol :: int where "scorePartialSymbol = 4000"
definition scoreSymbol :: int where "scoreSymbol = 7000"
definition scoreFactorAtomMatch :: int where "scoreFactorAtomMatch = 400"

text \<open>Indexing a slice with a Go \<^verbatim>\<open>int\<close>.\<close>

definition indexI :: "'a list \<Rightarrow> int \<Rightarrow> panic + 'a" where
  "indexI xs i = (if 0 \<le> i \<and> i < int (length xs) then Inr (xs ! nat i) else Inl IndexOutOfRange)"

text \<open>
  The two boundary tests of \<^verbatim>\<open>matchScore\<close>, with Go's short-circuit evaluation.
  \<^verbatim>\<open>byteClass\<close> is declared outside \<^verbatim>\<open>search.go\<close>; it is the parameter \<open>bc\<close>.
\<close>

definition startBoundary :: "(u8 \<Rightarrow> int) \<Rightarrow> u8 list \<Rightarrow> MatchFragment \<Rightarrow> panic + bool" where
  "startBoundary bc ln f =
     (if LineOff f < int (length ln)
      then (if LineOff f = 0 then Inr True
            else (case indexI ln (LineOff f - 1) of
                    Inl e \<Rightarrow> Inl e
                  | Inr a \<Rightarrow> (case indexI ln (LineOff f) of
                              Inl e \<Rightarrow> Inl e
                            | Inr b \<Rightarrow> Inr (bc a \<noteq> bc b))))
      else Inr False)"

definition endBoundary :: "(u8 \<Rightarrow> int) \<Rightarrow> u8 list \<Rightarrow> MatchFragment \<Rightarrow> panic + bool" where
  "endBoundary bc ln f =
     (let end' = LineOff f + MatchLength f
      in if end' > 0
         then (if end' = int (length ln) then Inr True
               else (case indexI ln (end' - 1) of
                       Inl e \<Rightarrow> Inl e
                     | Inr a \<Rightarrow> (case indexI ln end' of
                                 Inl e \<Rightarrow> Inl e
                               | Inr b \<Rightarrow> Inr (bc a \<noteq> bc b))))
         else Inr False)"

text \<open>The body of the loop of \<^verbatim>\<open>matchScore\<close>: the score of one fragment.\<close>

definition fragmentScore ::
    "(u8 \<Rightarrow> int) \<Rightarrow> DocumentSection list \<Rightarrow> u8 list \<Rightarrow> MatchFragment \<Rightarrow> panic + int" where
  "fragmentScore bc secs ln f =
     (case startBoundary bc ln f of
        Inl e \<Rightarrow> Inl e
      | Inr sb \<Rightarrow>
          (case endBoundary bc ln f of
             Inl e \<Rightarrow> Inl e
           | Inr eb \<Rightarrow>
               (let score = (if sb \<and> eb then scoreWordMatch
                             else if sb \<or> eb then scorePartialWordMatch else 0)
                in (case findSection secs (Offset f) (of_int (MatchLength f)) of
                      None \<Rightarrow> Inr score
                    | Some sec \<Rightarrow>
                        (let startMatch = (Start sec = Offset f);
                             endMatch = (End sec = Offset f + of_int (MatchLength f))
                         in if startMatch \<and> endMatch then Inr (score + scoreSymbol)
                            else if startMatch \<or> endMatch
                            then Inr (score + (scoreSymbol + scorePartialSymbol) div 2)
                            else Inr (score + scorePartialSymbol))))))"

fun matchScore_loop ::
    "(u8 \<Rightarrow> int) \<Rightarrow> DocumentSection list \<Rightarrow> u8 list \<Rightarrow> MatchFragment list \<Rightarrow> int
      \<Rightarrow> panic + int" where
  "matchScore_loop bc secs ln [] maxScore = Inr maxScore"
| "matchScore_loop bc secs ln (f # fs) maxScore =
     (case fragmentScore bc secs ln f of
        Inl e \<Rightarrow> Inl e
      | Inr score \<Rightarrow>
          matchScore_loop bc secs ln fs (if score > maxScore then score else maxScore))"

definition matchScore :: "(u8 \<Rightarrow> int) \<Rightarrow> DocumentSection list \<Rightarrow> Match \<Rightarrow> panic + int" where
  "matchScore bc secs m = matchScore_loop bc secs (Line m) (Fragments m) 0"

subsection \<open>The document iterator (package codesearch)\<close>

record SubstringQuery =
  Pattern :: "u8 list"
  CaseSensitive :: bool

text \<open>
  \<^verbatim>\<open>candidateMatch\<close> as package \<^verbatim>\<open>codesearch\<close> declares it. Package \<^verbatim>\<open>zoekt\<close>
  reads two more fields of its candidates, \<^verbatim>\<open>fileName\<close> and \<^verbatim>\<open>matchSz\<close>, whose
  declaration is outside \<^verbatim>\<open>search.go\<close>; the record carries them too. The field
  \<^verbatim>\<open>file\<close> is \<open>file'\<close>; the position lists \<^verbatim>\<open>first\<close> and \<^verbatim>\<open>last\<close> of the
  iterator are \<open>first'\<close> and \<open>last'\<close>, its \<^verbatim>\<open>query\<close> is \<open>s_query\<close>. A composite
  literal leaves the fields it does not name at their zero values.
\<close>

record candidateMatch =
  query :: SubstringQuery
  substrBytes :: "u8 list"
  lowered :: "u8 list"
  caseMask :: "u8 list list option"
  caseBits :: "u8 list list option"
  file' :: u32
  offset :: u32
  fileName :: bool
  matchSz :: u32

record docIterator =
  s_query :: SubstringQuery
  patLen :: u32
  first' :: "u32 list"
  last' :: "u32 list"
  fileIdx :: nat
  ends :: "u32 list"

subsection \<open>The case check (package codesearch)\<close>

text \<open>
  \<^verbatim>\<open>populateCaseBits\<close> and \<^verbatim>\<open>caseMatches\<close>. \<^verbatim>\<open>findCaseMasks\<close> is declared outside
  \<^verbatim>\<open>search.go\<close>; it is the parameter \<open>fcm\<close>. \<^verbatim>\<open>caseMatches\<close> returns its verdict and
  the candidate with the mask tables it has cached.
\<close>

definition populateCaseBits ::
    "(u8 list \<Rightarrow> u8 list list \<times> u8 list list) \<Rightarrow> candidateMatch \<Rightarrow> candidateMatch" where
  "populateCaseBits fcm m =
     (if \<not> CaseSensitive (query m) \<or> caseMask m \<noteq> None then m
      else (case fcm (substrBytes m) of
              (msk, bts) \<Rightarrow> m\<lparr>caseMask := Some msk, caseBits := Some bts\<rparr>))"

text \<open>
  The comparison loop:
  \<^verbatim>\<open>for i := range fileBits { if fileBits[i]&mask[i] != bits[i] { return false } }; return true\<close>.
\<close>

function compareLoop :: "u8 list \<Rightarrow> u8 list \<Rightarrow> u8 list \<Rightarrow> nat \<Rightarrow> panic + bool" where
  "compareLoop fileBits msk bts i =
     (if i < length fileBits
      then (case index msk i of
              Inl e \<Rightarrow> Inl e
            | Inr mk \<Rightarrow>
                (case index bts i of
                   Inl e \<Rightarrow> Inl e
                 | Inr b \<Rightarrow>
                     if (fileBits ! i) AND mk \<noteq> b then Inr False
                     else compareLoop fileBits msk bts (i + 1)))
      else Inr True)"
  by pat_completeness auto
termination
  by (relation "measure (\<lambda>(fileBits, msk, bts, i). length fileBits - i)") auto

declare compareLoop.simps [simp del]

text \<open>
  The byte-aligned slice of the file's case bitmap that \<^verbatim>\<open>caseMatches\<close> extracts,
  \<^verbatim>\<open>fileCaseBits[start/8:end/8]\<close>, with the bounds computed in \<^verbatim>\<open>uint32\<close>.
\<close>

definition startExtend :: "candidateMatch \<Rightarrow> u32" where
  "startExtend m = offset m mod 8"

definition endExtend :: "candidateMatch \<Rightarrow> u32" where
  "endExtend m = (8 - ((offset m + of_nat (length (substrBytes m))) mod 8)) mod 8"

definition caseSlice :: "candidateMatch \<Rightarrow> u8 list \<Rightarrow> panic + u8 list" where
  "caseSlice m fileCaseBits =
     sliceRange fileCaseBits
       (unat ((offset m - startExtend m) div 8))
       (unat ((offset m + of_nat (length (substrBytes m)) + endExtend m) div 8))"

definition caseMatches ::
    "(u8 list \<Rightarrow> u8 list list \<times> u8 list list) \<Rightarrow> candidateMatch \<Rightarrow> u8 list
      \<Rightarrow> panic + (bool \<times> candidateMatch)" where
  "caseMatches fcm m fileCaseBits =
     (if \<not> CaseSensitive (query m) then Inr (True, m)
      else (let m' = populateCaseBits fcm m
            in (case caseSlice m' fileCaseBits of
                  Inl e \<Rightarrow> Inl e
                | Inr fileBits \<Rightarrow>
                    (case index (slice_of (caseMask m')) (unat (startExtend m')) of
                       Inl e \<Rightarrow> Inl e
                     | Inr msk \<Rightarrow>
                         (case index (slice_of (caseBits m')) (unat (startExtend m')) of
                            Inl e \<Rightarrow> Inl e
                          | Inr bts \<Rightarrow>
                              (case compareLoop fileBits msk bts 0 of
                                 Inl e \<Rightarrow> Inl e
                               | Inr b \<Rightarrow> Inr (b, m')))))))"

text \<open>
  Modelled from the spec: \<^verbatim>\<open>findCaseMasks(pattern)\<close>, which \<^verbatim>\<open>search.go\<close> calls and
  does not hold. It builds the pattern's eight (mask, bits) pairs, one for each alignment
  \<open>s\<close> (0 to 7) of the start offset modulo 8. Both templates are byte-aligned and cover
  the extended range of \<open>s + len(pattern)\<close> bits rounded up to whole bytes; the mask has
  the bits of the pattern's span set, and the bits template has, inside that span, the
  pattern's case signature: a set bit for an upper-case byte. As in the case bitmap,
  bit \<open>k\<close> of a template is bit \<open>k mod 8\<close> of its byte \<open>k div 8\<close>.
\<close>

definition isUpper :: "u8 \<Rightarrow> bool" where
  "isUpper c \<longleftrightarrow> 65 \<le> c \<and> c \<le> 90"

definition packBits :: "(nat \<Rightarrow> bool) \<Rightarrow> nat \<Rightarrow> u8 list" where
  "packBits f n = map (\<lambda>j. horner_sum of_bool 2 (map (\<lambda>b. f (8 * j + b)) [0..<8])) [0..<n]"

definition findCaseMasks :: "u8 list \<Rightarrow> u8 list list \<times> u8 list list" where
  "findCaseMasks pat =
     (map (\<lambda>s. packBits (\<lambda>k. s \<le> k \<and> k < s + length pat) ((s + length pat + 7) div 8))
        [0..<8],
      map (\<lambda>s. packBits (\<lambda>k. s \<le> k \<and> k < s + length pat \<and> isUpper (pat ! (k - s)))
                 ((s + length pat + 7) div 8))
        [0..<8])"

text \<open>Bit \<open>k\<close> of a packed case bitmap: the case of content byte \<open>k\<close>.\<close>

definition caseBit :: "u8 list \<Rightarrow> nat \<Rightarrow> bool" where
  "caseBit cb k \<longleftrightarrow> bit (cb ! (k div 8)) (k mod 8)"

text \<open>Modelled from the spec: \<^verbatim>\<open>NGRAM\<close>, the fixed trigram length, 3.\<close>

definition NGRAM :: u32 where
  "NGRAM = 3"

text \<open>
  Modelled from the spec: \<^verbatim>\<open>toLower\<close>, the canonical lowercasing of a byte
  sequence (ASCII letters \<^verbatim>\<open>A\<close>..\<^verbatim>\<open>Z\<close> to \<^verbatim>\<open>a\<close>..\<^verbatim>\<open>z\<close>).
\<close>

definition toLower :: "u8 list \<Rightarrow> u8 list" where
  "toLower bs = map (\<lambda>c. if 65 \<le> c \<and> c \<le> 90 then c + 32 else c) bs"

text \<open>
  The inner loop of \<^verbatim>\<open>next\<close>:
  \<^verbatim>\<open>for s.fileIdx < len(s.ends) && s.ends[s.fileIdx] <= p1 { s.fileIdx++ }\<close>.
\<close>

function advanceFile :: "u32 list \<Rightarrow> nat \<Rightarrow> u32 \<Rightarrow> nat" where
  "advanceFile es i p1 =
     (if i < length es \<and> es ! i \<le> p1 then advanceFile es (i + 1) p1 else i)"
  by pat_completeness auto
termination
  by (relation "measure (\<lambda>(es, i, p1). length es - i)") auto

declare advanceFile.simps [simp del]

text \<open>
  The outer loop of \<^verbatim>\<open>next\<close>, on the fields it reads and writes: the two position
  lists, the document cursor and the candidates collected so far. Reading
  \<^verbatim>\<open>s.ends[s.fileIdx]\<close> panics when the cursor has run past the last document.
\<close>

fun next_loop :: "SubstringQuery \<Rightarrow> u32 \<Rightarrow> u32 list \<Rightarrow> u32 list \<Rightarrow> u32 list \<Rightarrow> nat
    \<Rightarrow> candidateMatch list \<Rightarrow> panic + (candidateMatch list \<times> u32 list \<times> u32 list \<times> nat)" where
  "next_loop q pl es [] ls i cands = Inr (cands, [], ls, i)"
| "next_loop q pl es (p1 # fs) [] i cands = Inr (cands, p1 # fs, [], i)"
| "next_loop q pl es (p1 # fs) (p2 # ls) i cands =
     (let i' = advanceFile es i p1; distance = pl - NGRAM
      in if p1 + distance < p2 then next_loop q pl es fs (p2 # ls) i' cands
         else if p1 + distance > p2 then next_loop q pl es (p1 # fs) ls i' cands
         else if i' < length es
              then (if p1 + pl \<ge> es ! i' then next_loop q pl es fs ls i' cands
                    else next_loop q pl es fs ls i'
                           (cands @
                            [\<lparr>query = q, substrBytes = Pattern q, lowered = toLower (Pattern q),
                              caseMask = None, caseBits = None,
                              file' = of_nat i',
                              offset = p1 - (if i' > 0 then 0 + es ! (i' - 1) else 0),
                              fileName = False, matchSz = 0\<rparr>]))
              else Inl IndexOutOfRange)"

definition docIterator_next :: "docIterator \<Rightarrow> panic + (candidateMatch list \<times> docIterator)" where
  "docIterator_next s =
     (case next_loop (s_query s) (patLen s) (ends s) (first' s) (last' s) (fileIdx s) [] of
        Inl e \<Rightarrow> Inl e
      | Inr (cands, fs, ls, i) \<Rightarrow> Inr (cands, s\<lparr>first' := fs, last' := ls, fileIdx := i\<rparr>))"

text \<open>
  The same loop without the accumulator: the candidates it appends, in order, and the
  final lists and cursor. \<open>next_loop_scan\<close> below relates the two.
\<close>

fun scan :: "SubstringQuery \<Rightarrow> u32 \<Rightarrow> u32 list \<Rightarrow> u32 list \<Rightarrow> u32 list \<Rightarrow> nat
    \<Rightarrow> panic + (candidateMatch list \<times> u32 list \<times> u32 list \<times> nat)" where
  "scan q pl es [] ls i = Inr ([], [], ls, i)"
| "scan q pl es (p1 # fs) [] i = Inr ([], p1 # fs, [], i)"
| "scan q pl es (p1 # fs) (p2 # ls) i =
     (let i' = advanceFile es i p1; distance = pl - NGRAM
      in if p1 + distance < p2 then scan q pl es fs (p2 # ls) i'
         else if p1 + distance > p2 then scan q pl es (p1 # fs) ls i'
         else if i' < length es
              then (if p1 + pl \<ge> es ! i' then scan q pl es fs ls i'
                    else (case scan q pl es fs ls i' of
                            Inl e \<Rightarrow> Inl e
                          | Inr (cs, r) \<Rightarrow>
                              Inr (\<lparr>query = q, substrBytes = Pattern q,
                                    lowered = toLower (Pattern q),
                                    caseMask = None, caseBits = None,
                                    file' = of_nat i',
                                    offset = p1 - (if i' > 0 then 0 + es ! (i' - 1) else 0),
                                    fileName = False, matchSz = 0\<rparr> # cs, r)))
              else Inl IndexOutOfRange)"

text \<open>
  The start and the length of document \<open>i\<close> of a shard whose documents end at
  \<open>es\<close>: document \<open>i\<close> spans \<^verbatim>\<open>[ends[i-1], ends[i])\<close>, the first one starting at 0.
\<close>

definition docStart :: "u32 list \<Rightarrow> nat \<Rightarrow> u32" where
  "docStart es i = (if i > 0 then es ! (i - 1) else 0)"


text \<open>
  Candidate \<open>c\<close> is the one the loop appends for the position \<open>p\<close> of the first
  trigram while the cursor stands on document \<open>F\<close>.
\<close>

definition emittedAt :: "u32 list \<Rightarrow> u32 \<Rightarrow> candidateMatch \<Rightarrow> nat \<Rightarrow> u32 \<Rightarrow> bool" where
  "emittedAt es pl c F p \<longleftrightarrow>
     F < length es \<and> file' c = of_nat F \<and> offset c = p - docStart es F
     \<and> docStart es F \<le> p \<and> p < es ! F \<and> p + pl < es ! F"

text \<open>
  The order on candidates: by document index, and within a document by offset.
\<close>

definition candLe :: "candidateMatch \<Rightarrow> candidateMatch \<Rightarrow> bool" where
  "candLe a b \<longleftrightarrow> file' a < file' b \<or> (file' a = file' b \<and> offset a \<le> offset b)"

text \<open>
  The invariant of the document cursor: every document the cursor has passed ends at or
  before each position still in the first list.
\<close>

definition cursorInv :: "u32 list \<Rightarrow> nat \<Rightarrow> u32 list \<Rightarrow> bool" where
  "cursorInv es i fs \<longleftrightarrow> (\<forall>k<i. k < length es \<longrightarrow> (\<forall>p\<in>set fs. es ! k \<le> p))"

subsection \<open>The lazy accessors of the content provider\<close>

text \<open>
  Each accessor returns its slice and the provider as the call leaves it. A \<^verbatim>\<open>nil\<close>
  slice is returned as the empty list: the callers only take its length, index it and
  range over it. Each read through the index assigns \<^verbatim>\<open>p.err\<close> the error of that read.
\<close>

definition docSections :: "contentProvider \<Rightarrow> DocumentSection list \<times> contentProvider" where
  "docSections p =
     (let p' = (if p_sects p = None
                then (case readDocSections (id' p) (idx p) of
                        (r, e) \<Rightarrow> p\<lparr>p_sects := r, err := e\<rparr>)
                else p)
      in (slice_of (p_sects p'), p'))"

definition newlines :: "contentProvider \<Rightarrow> u32 list \<times> contentProvider" where
  "newlines p =
     (let p' = (if p_nl p = None
                then (case readNewlines (id' p) (idx p) of
                        (r, e) \<Rightarrow> p\<lparr>p_nl := r, err := e, p_nlBuf := r\<rparr>)
                else p)
      in (slice_of (p_nl p'), p'))"

definition data :: "contentProvider \<Rightarrow> bool \<Rightarrow> panic + (u8 list \<times> contentProvider)" where
  "data p isName =
     (if isName
      then (case index (fileNameIndex (id' p)) (unat (idx p)) of
              Inl e \<Rightarrow> Inl e
            | Inr lo \<Rightarrow>
                (case index (fileNameIndex (id' p)) (unat (idx p + 1)) of
                   Inl e \<Rightarrow> Inl e
                 | Inr hi \<Rightarrow>
                     (case sliceRange (fileNameContent (id' p)) (unat lo) (unat hi) of
                        Inl e \<Rightarrow> Inl e
                      | Inr bs \<Rightarrow> Inr (bs, p))))
      else (let p' = (if p_data p = None
                      then (case readContents (id' p) (idx p) of
                              (r, e) \<Rightarrow>
                                p\<lparr>p_data := r, err := e,
                                  stats := (stats p)\<lparr>FilesLoaded := FilesLoaded (stats p) + 1,
                                             BytesLoaded := BytesLoaded (stats p)
                                               + int (length (slice_of r))\<rparr>\<rparr>)
                      else p)
            in Inr (slice_of (p_data p'), p')))"

definition providerCaseBits ::
    "contentProvider \<Rightarrow> bool \<Rightarrow> panic + (u8 list \<times> contentProvider)" where
  "providerCaseBits p isName =
     (if isName
      then (case index (fileNameCaseBitsIndex (id' p)) (unat (idx p)) of
              Inl e \<Rightarrow> Inl e
            | Inr lo \<Rightarrow>
                (case index (fileNameCaseBitsIndex (id' p)) (unat (idx p + 1)) of
                   Inl e \<Rightarrow> Inl e
                 | Inr hi \<Rightarrow>
                     (case sliceRange (fileNameCaseBits (id' p)) (unat lo) (unat hi) of
                        Inl e \<Rightarrow> Inl e
                      | Inr bs \<Rightarrow> Inr (bs, p))))
      else (let p' = (if p_cb p = None
                      then (case readCaseBits (id' p) (idx p) of
                              (r, e) \<Rightarrow> p\<lparr>p_cb := r, err := e\<rparr>)
                      else p)
            in Inr (slice_of (p_cb p'), p')))"

subsection \<open>The line assembler\<close>

text \<open>
  Modelled from the spec: \<^verbatim>\<open>candidateMatch.line(newlines, fileSize)\<close> of package
  \<^verbatim>\<open>zoekt\<close>, which \<^verbatim>\<open>search.go\<close> calls and does not hold. It searches the newline
  table for the first line boundary at or after the match offset and returns the line
  number (1-based), the line start (the offset after the previous terminator, or 0) and
  the line end (the next terminator's offset, or the content length). The \<^verbatim>\<open>line\<close> of
  package \<^verbatim>\<open>codesearch\<close>, which \<^verbatim>\<open>search.go\<close> does hold, runs the same search and
  computes the same start and end.
\<close>

definition line :: "candidateMatch \<Rightarrow> u32 list \<Rightarrow> u32 \<Rightarrow> int \<times> int \<times> int" where
  "line m nls fsz =
     (let i = sort_Search (length nls) (\<lambda>n. nls ! n \<ge> offset m);
          end' = (if i < length nls then uint (nls ! i) else uint fsz);
          start = (if i > 0 then uint (nls ! (i - 1) + 1) else 0)
      in (int i + 1, start, end'))"

text \<open>
  Go's \<^verbatim>\<open>bytes.IndexByte(b, c)\<close>: the index of the first \<^verbatim>\<open>c\<close> in \<^verbatim>\<open>b\<close>, or -1.
\<close>

fun IndexByte :: "u8 list \<Rightarrow> u8 \<Rightarrow> int" where
  "IndexByte [] c = - 1"
| "IndexByte (b # bs) c =
     (if b = c then 0 else (let k = IndexByte bs c in if k = - 1 then - 1 else k + 1))"

text \<open>
  Modelled from the spec: \<^verbatim>\<open>toOriginal(content, caseBits, start, end)\<close> restores the
  original letter casing of the lowercased content over \<^verbatim>\<open>[start, end)\<close> from the
  packed case bitmap, one bit per content byte, a set bit for an upper-case original
  (byte \<open>i\<close> is bit \<open>i mod 8\<close> of bitmap byte \<open>i div 8\<close>). The destination buffer of
  the Go call is storage to reuse and has no part in the result.
\<close>

definition toOriginal :: "u8 list \<Rightarrow> u8 list \<Rightarrow> int \<Rightarrow> int \<Rightarrow> panic + u8 list" where
  "toOriginal dat cb start end' =
     (if \<not> (0 \<le> start \<and> start \<le> end' \<and> end' \<le> int (length dat))
      then Inl SliceBoundsOutOfRange
      else if int (length cb) * 8 < end' then Inl IndexOutOfRange
      else Inr (map (\<lambda>i. if bit (cb ! (i div 8)) (i mod 8) then dat ! i - 32 else dat ! i)
                  [nat start..<nat end']))"

text \<open>
  The inner loop of \<^verbatim>\<open>fillContentMatches\<close> that collects the candidates of one line:
  it takes candidates while \<^verbatim>\<open>int(m.offset) < end\<close> and leaves \<^verbatim>\<open>endMatch\<close> at the
  end of the last one taken. The result is \<^verbatim>\<open>endMatch\<close>, the candidates of the line
  and the candidates left.
\<close>

fun groupLine :: "int \<Rightarrow> u32 \<Rightarrow> candidateMatch list
    \<Rightarrow> u32 \<times> candidateMatch list \<times> candidateMatch list" where
  "groupLine end' endMatch [] = (endMatch, [], [])"
| "groupLine end' endMatch (m # ms) =
     (if uint (offset m) < end'
      then (case groupLine end' (offset m + matchSz m) ms of
              (e, lineCands, rest) \<Rightarrow> (e, m # lineCands, rest))
      else (endMatch, [], m # ms))"

text \<open>
  The cross-line loop of \<^verbatim>\<open>fillContentMatches\<close>:
  \<^verbatim>\<open>for end < len(data) && endMatch > uint32(end) { end = bytes.IndexByte(data[end+1:], '\n'); if end == -1 { end = len(data) } }\<close>.
  It need not terminate; \<open>None\<close> is the run that does not.
\<close>

partial_function (option) extendLineEnd :: "u8 list \<Rightarrow> u32 \<Rightarrow> int \<Rightarrow> (panic + int) option" where
  "extendLineEnd dat endMatch end' =
     (if end' < int (length dat) \<and> endMatch > of_int end'
      then (if end' + 1 < 0 then Some (Inl SliceBoundsOutOfRange)
            else extendLineEnd dat endMatch
                   (let k = IndexByte (drop (nat (end' + 1)) dat) 10
                    in if k = - 1 then int (length dat) else k))
      else Some (Inr end'))"

declare extendLineEnd.simps [code]

text \<open>
  The outer loop of \<^verbatim>\<open>fillContentMatches\<close>. It does not terminate when the cross-line
  loop does not, or when a pass takes no candidate (a candidate at or past the end of
  its line).
\<close>

partial_function (option) fillContentMatches_loop ::
    "contentProvider \<Rightarrow> candidateMatch list \<Rightarrow> Match list
      \<Rightarrow> (panic + (Match list \<times> contentProvider)) option" where
  "fillContentMatches_loop p ms result =
     (case ms of
        [] \<Rightarrow> Some (Inr (result, p))
      | m # ms' \<Rightarrow>
          (case newlines p of (nls, p1) \<Rightarrow>
           (case line m nls (fileSize p1) of (num, start, end0) \<Rightarrow>
            (case groupLine end0 (offset m + matchSz m) ms of (endMatch, lineCands, rest) \<Rightarrow>
             (case data p1 False of
                Inl e \<Rightarrow> Some (Inl e)
              | Inr (dat, p2) \<Rightarrow>
                  Option.bind (extendLineEnd dat endMatch end0)
                    (\<lambda>r. case r of
                       Inl e \<Rightarrow> Some (Inl e)
                     | Inr end1 \<Rightarrow>
                         if end1 - start + 8 < 0 then Some (Inl NegativeLen)
                         else (case data p2 False of
                                 Inl e \<Rightarrow> Some (Inl e)
                               | Inr (dat2, p3) \<Rightarrow>
                                   (case providerCaseBits p3 False of
                                      Inl e \<Rightarrow> Some (Inl e)
                                    | Inr (cb, p4) \<Rightarrow>
                                        (case toOriginal dat2 cb start end1 of
                                           Inl e \<Rightarrow> Some (Inl e)
                                         | Inr ln \<Rightarrow>
                                             fillContentMatches_loop p4 rest
                                               (result @
                                                [\<lparr>Line = ln, LineStart = start, LineEnd = end1,
                                                  LineNum = num, FileName = False,
                                                  Fragments =
                                                    map (\<lambda>c. \<lparr>LineOff = uint (offset c) - start,
                                                               MatchLength = uint (matchSz c),
                                                               Offset = offset c\<rparr>) lineCands,
                                                  Score = 0\<rparr>]))))))))))"

declare fillContentMatches_loop.simps [code]

definition fillContentMatches ::
    "contentProvider \<Rightarrow> candidateMatch list \<Rightarrow> (panic + (Match list \<times> contentProvider)) option" where
  "fillContentMatches p ms = fillContentMatches_loop p ms []"

text \<open>The scoring loop that ends \<^verbatim>\<open>fillMatches\<close>.\<close>

fun scoreAll :: "(u8 \<Rightarrow> int) \<Rightarrow> DocumentSection list \<Rightarrow> Match list \<Rightarrow> panic + Match list" where
  "scoreAll bc sects [] = Inr []"
| "scoreAll bc sects (m # ms) =
     (case matchScore bc sects m of
        Inl e \<Rightarrow> Inl e
      | Inr v \<Rightarrow> (case scoreAll bc sects ms of
                    Inl e \<Rightarrow> Inl e
                  | Inr r \<Rightarrow> Inr (m\<lparr>Score := v\<rparr> # r)))"

text \<open>
  \<^verbatim>\<open>fillMatches\<close>. Reading \<^verbatim>\<open>ms[0]\<close> panics on an empty slice. In the filename branch
  the loop appends one fragment per candidate to the one \<^verbatim>\<open>Match\<close> and stores that
  match as the result.
\<close>

definition fillMatches :: "(u8 \<Rightarrow> int) \<Rightarrow> contentProvider \<Rightarrow> candidateMatch list
    \<Rightarrow> (panic + (Match list \<times> contentProvider)) option" where
  "fillMatches bc p ms =
     (case ms of
        [] \<Rightarrow> Some (Inl IndexOutOfRange)
      | m0 # ms' \<Rightarrow>
          Option.bind
            (if fileName m0
             then Some (Inr ([\<lparr>Line = id_fileName (id' p) (idx p), LineStart = 0, LineEnd = 0,
                                LineNum = 0, FileName = True,
                                Fragments =
                                  map (\<lambda>c. \<lparr>LineOff = uint (offset c),
                                             MatchLength = uint (matchSz c),
                                             Offset = offset c\<rparr>) ms,
                                Score = 0\<rparr>], p))
             else fillContentMatches p ms)
            (\<lambda>r. case r of
               Inl e \<Rightarrow> Some (Inl e)
             | Inr (result, p1) \<Rightarrow>
                 (case docSections p1 of (sects, p2) \<Rightarrow>
                  (case scoreAll bc sects result of
                     Inl e \<Rightarrow> Some (Inl e)
                   | Inr result' \<Rightarrow> Some (Inr (result', p2))))))"

subsection \<open>A concrete shard\<close>

text \<open>
  A shard of two documents, the first with the content \<^verbatim>\<open>"ab\ncdefg\nhi"\<close> (11 bytes,
  line terminators at offsets 2 and 8, all lower case, one symbol section over
  \<^verbatim>\<open>cdefg\<close>), the second of 9 bytes; the file names are \<^verbatim>\<open>a.go\<close> and \<^verbatim>\<open>b.go\<close>; and
  a provider positioned on document 0 that has a decode error latched.
\<close>

definition exampleIndex :: indexData where
  "exampleIndex =
     \<lparr>fileEnds = [11, 20],
      readDocSections = (\<lambda>d. (Some [\<lparr>Start = 3, End = 8\<rparr>], None)),
      readNewlines = (\<lambda>d. (Some [2, 8], None)),
      readContents = (\<lambda>d. (Some [97, 98, 10, 99, 100, 101, 102, 103, 10, 104, 105], None)),
      readCaseBits = (\<lambda>d. (Some [0, 0], None)),
      id_fileName = (\<lambda>d. [97, 46, 103, 111]),
      fileNameContent = [97, 46, 103, 111, 98, 46, 103, 111],
      fileNameIndex = [0, 4, 8],
      fileNameCaseBits = [0, 0],
      fileNameCaseBitsIndex = [0, 1, 2]\<rparr>"

definition exampleProvider :: contentProvider where
  "exampleProvider =
     \<lparr>id' = exampleIndex, stats = \<lparr>FilesLoaded = 0, BytesLoaded = 0\<rparr>,
      err = Some DecodeError, idx = 0,
      p_cb = Some [0, 0], p_data = Some [97, 98, 10, 99, 100, 101, 102, 103, 10, 104, 105],
      p_nl = Some [2, 8], p_nlBuf = Some [2, 8], p_sects = Some [\<lparr>Start = 3, End = 8\<rparr>],
      fileSize = 11\<rparr>"

text \<open>A byte classifier for the examples: letters, digits and the underscore are class 1.\<close>

definition exampleByteClass :: "u8 \<Rightarrow> int" where
  "exampleByteClass c =
     (if (97 \<le> c \<and> c \<le> 122) \<or> (65 \<le> c \<and> c \<le> 90) \<or> (48 \<le> c \<and> c \<le> 57) \<or> c = 95
      then 1 else 0)"

definition exampleSections :: "DocumentSection list" where
  "exampleSections = [\<lparr>Start = 0, End = 3\<rparr>, \<lparr>Start = 3, End = 8\<rparr>, \<lparr>Start = 9, End = 12\<rparr>]"

text \<open>
  An iterator over that shard for the pattern \<^verbatim>\<open>"cdefg"\<close>: the first trigram occurs
  at the shard offsets 3, 8 and 14, the last one two bytes later each time. The
  occurrence at 8 would end at 13, past the end of document 0.
\<close>

definition exampleIterator :: docIterator where
  "exampleIterator =
     \<lparr>s_query = \<lparr>Pattern = [99, 100, 101, 102, 103], CaseSensitive = True\<rparr>,
      patLen = 5, first' = [3, 8, 14], last' = [5, 10, 16], fileIdx = 0, ends = [11, 20]\<rparr>"

text \<open>
  The match of the line \<^verbatim>\<open>cdefg\<close> of the example document, with two fragments: the
  whole line, and the two bytes \<^verbatim>\<open>de\<close> inside it.
\<close>

definition exampleMatch :: Match where
  "exampleMatch =
     \<lparr>Line = [99, 100, 101, 102, 103], LineStart = 3, LineEnd = 8, LineNum = 2,
      FileName = False,
      Fragments = [\<lparr>LineOff = 0, MatchLength = 5, Offset = 3\<rparr>,
                   \<lparr>LineOff = 1, MatchLength = 2, Offset = 4\<rparr>],
      Score = 0\<rparr>"

text \<open>
  A shard of one document with the content \<^verbatim>\<open>"a\nbbbbbbbbbb\ncc"\<close> (15 bytes, line
  terminators at offsets 1 and 12, all lower case), a fresh provider on it, and a
  candidate for the three bytes \<^verbatim>\<open>"a\nb"\<close> at offset 0, which span the first two lines.
\<close>

definition crossLineContent :: "u8 list" where
  "crossLineContent = [97, 10, 98, 98, 98, 98, 98, 98, 98, 98, 98, 98, 10, 99, 99]"

definition crossLineIndex :: indexData where
  "crossLineIndex =
     \<lparr>fileEnds = [15],
      readDocSections = (\<lambda>d. (Some [], None)),
      readNewlines = (\<lambda>d. (Some [1, 12], None)),
      readContents = (\<lambda>d. (Some crossLineContent, None)),
      readCaseBits = (\<lambda>d. (Some [0, 0], None)),
      id_fileName = (\<lambda>d. [97]),
      fileNameContent = [97],
      fileNameIndex = [0, 1],
      fileNameCaseBits = [0],
      fileNameCaseBitsIndex = [0, 1]\<rparr>"

definition crossLineProvider :: contentProvider where
  "crossLineProvider =
     \<lparr>id' = crossLineIndex, stats = \<lparr>FilesLoaded = 0, BytesLoaded = 0\<rparr>,
      err = None, idx = 0, p_cb = None, p_data = None, p_nl = None, p_nlBuf = None,
      p_sects = None, fileSize = 15\<rparr>"

definition crossLineCandidate :: candidateMatch where
  "crossLineCandidate =
     \<lparr>query = \<lparr>Pattern = [97, 10, 98], CaseSensitive = False\<rparr>,
      substrBytes = [97, 10, 98], lowered = [97, 10, 98], caseMask = None, caseBits = None,
      file' = 0, offset = 0, fileName = False, matchSz = 3\<rparr>"

text \<open>
  The content \<^verbatim>\<open>"aaaa\nbb\ncc"\<close> (terminators at offsets 4 and 7); a match of the three
  bytes at offset 3 ends at 6, past the end 4 of its line.
\<close>

definition loopingContent :: "u8 list" where
  "loopingContent = [97, 97, 97, 97, 10, 98, 98, 10, 99, 99]"

text \<open>Two filename candidates of the example shard's document 0, \<^verbatim>\<open>a.go\<close>.\<close>

definition nameCandidates :: "candidateMatch list" where
  "nameCandidates =
     [\<lparr>query = \<lparr>Pattern = [97], CaseSensitive = False\<rparr>,
       substrBytes = [97], lowered = [97], caseMask = None, caseBits = None,
       file' = 0, offset = 0, fileName = True, matchSz = 1\<rparr>,
      \<lparr>query = \<lparr>Pattern = [103, 111], CaseSensitive = False\<rparr>,
       substrBytes = [103, 111], lowered = [103, 111], caseMask = None, caseBits = None,
       file' = 0, offset = 2, fileName = True, matchSz = 2\<rparr>]"

text \<open>
  A case-sensitive candidate for the pattern \<^verbatim>\<open>"Foo"\<close> at offset 9 of a document.
  In the bitmap \<open>[0, 2]\<close> only content byte 9 is upper case; in \<open>[0, 6]\<close> byte 10 is
  too.
\<close>

definition caseCandidate :: candidateMatch where
  "caseCandidate =
     \<lparr>query = \<lparr>Pattern = [70, 111, 111], CaseSensitive = True\<rparr>,
      substrBytes = [70, 111, 111], lowered = [102, 111, 111],
      caseMask = None, caseBits = None,
      file' = 0, offset = 9, fileName = False, matchSz = 0\<rparr>"

section \<open>setDocument: what it resets and what it keeps\<close>




section \<open>findSection: the binary search finds the containing section\<close>

lemma sort_Search_loop_spec:
  assumes "i \<le> j" "j \<le> n"
    and "\<forall>k<i. \<not> f k" and "\<forall>k. j \<le> k \<and> k < n \<longrightarrow> f k"
    and mono: "\<forall>a b. a \<le> b \<and> b < n \<and> f a \<longrightarrow> f b"
  shows "sort_Search_loop f i j \<le> n \<and> (\<forall>k < sort_Search_loop f i j. \<not> f k)
         \<and> (\<forall>k. sort_Search_loop f i j \<le> k \<and> k < n \<longrightarrow> f k)"
  using assms
proof (induction f i j rule: sort_Search_loop.induct)
  case (1 f i j)
  show ?case
  proof (cases "i < j")
    case False
    with "1.prems" have "i = j" by simp
    moreover have "sort_Search_loop f i j = i"
      using False by (subst sort_Search_loop.simps) simp
    ultimately show ?thesis using "1.prems" by simp
  next
    case lt: True
    let ?h = "(i + j) div 2"
    have h: "i \<le> ?h" "?h < j" using lt by auto
    show ?thesis
    proof (cases "f ?h")
      case True
      have eq: "sort_Search_loop f i j = sort_Search_loop f i ?h"
        using lt True by (subst sort_Search_loop.simps) simp
      have a: "\<forall>k. ?h \<le> k \<and> k < n \<longrightarrow> f k"
        using True "1.prems"(5) by blast
      have b: "?h \<le> n" using h "1.prems"(2) by linarith
      have nn: "\<not> \<not> f ?h" using True by simp
      show ?thesis
        unfolding eq
        using lt nn h(1) b "1.prems"(3) a "1.prems"(5) by (rule "1.IH"(2))
    next
      case False
      have eq: "sort_Search_loop f i j = sort_Search_loop f (?h + 1) j"
        using lt False by (subst sort_Search_loop.simps) simp
      have a: "\<forall>k<?h + 1. \<not> f k"
      proof (intro allI impI)
        fix k assume "k < ?h + 1"
        then have "k \<le> ?h" by simp
        moreover have "?h < n" using h "1.prems" by simp
        ultimately show "\<not> f k" using False "1.prems"(5) by blast
      qed
      have b: "?h + 1 \<le> j" using h by simp
      show ?thesis
        unfolding eq
        using lt False b "1.prems"(2) a "1.prems"(4) "1.prems"(5) by (rule "1.IH"(1))
    qed
  qed
qed

lemma sort_Search_spec:
  assumes "\<forall>a b. a \<le> b \<and> b < n \<and> f a \<longrightarrow> f b"
  shows "sort_Search n f \<le> n \<and> (\<forall>k < sort_Search n f. \<not> f k)
         \<and> (\<forall>k. sort_Search n f \<le> k \<and> k < n \<longrightarrow> f k)"
  unfolding sort_Search_def
proof (rule sort_Search_loop_spec)
  show "\<forall>k. n \<le> k \<and> k < n \<longrightarrow> f k" by auto
qed (use assms in auto)

lemma findSection_index:
  assumes srt: "sortedByEnd secs"
    and nov: "unat off + unat sz < 2 ^ 32"
  defines "j \<equiv> sort_Search (length secs) (\<lambda>i. End (secs ! i) \<ge> off + sz)"
  shows "j \<le> length secs"
    and "\<forall>k<j. End (secs ! k) < off + sz"
    and "\<forall>k. j \<le> k \<and> k < length secs \<longrightarrow> off + sz \<le> End (secs ! k)"
proof -
  let ?f = "\<lambda>i. End (secs ! i) \<ge> off + sz"
  have mono: "\<forall>a b. a \<le> b \<and> b < length secs \<and> ?f a \<longrightarrow> ?f b"
  proof (intro allI impI)
    fix a b assume h: "a \<le> b \<and> b < length secs \<and> ?f a"
    show "?f b"
    proof (cases "a = b")
      case True with h show ?thesis by simp
    next
      case False
      with h have "a < b" by simp
      with srt h have "End (secs ! a) \<le> End (secs ! b)"
        by (simp add: sortedByEnd_def sorted_wrt_iff_nth_less)
      with h show ?thesis by (meson order_trans)
    qed
  qed
  from sort_Search_spec [OF mono]
  show "j \<le> length secs" "\<forall>k<j. End (secs ! k) < off + sz"
    "\<forall>k. j \<le> k \<and> k < length secs \<longrightarrow> off + sz \<le> End (secs ! k)"
    unfolding j_def by (auto simp: not_le)
qed

lemma unat_sum_no_wrap:
  fixes off sz :: u32
  assumes "unat off + unat sz < 2 ^ 32"
  shows "unat (off + sz) = unat off + unat sz"
  by (rule unat_add_lem [THEN iffD1]) (use assms in simp)


lemma findSection_complete:
  assumes srt: "sortedByEnd secs" and nol: "nonOverlapping secs"
    and nem: "nonEmptySections secs"
    and nov: "unat off + unat sz < 2 ^ 32"
    and k: "k < length secs" and ck: "sectionContains (secs ! k) off sz"
  shows "\<exists>j\<le>k. findSection secs off sz = Some (secs ! j)
           \<and> sectionContains (secs ! j) off sz \<and> (0 < sz \<longrightarrow> j = k)"
proof -
  define j where "j = sort_Search (length secs) (\<lambda>i. End (secs ! i) \<ge> off + sz)"
  note ix = findSection_index [OF srt nov, folded j_def]
  have sum: "unat (off + sz) = unat off + unat sz"
    by (rule unat_sum_no_wrap [OF nov])
  from ck have fk: "off + sz \<le> End (secs ! k)"
    by (simp add: sectionContains_def word_le_nat_alt sum)
  have jk: "j \<le> k"
  proof (rule ccontr)
    assume "\<not> j \<le> k"
    then have "k < j" by simp
    with ix(2) have "End (secs ! k) < off + sz" by blast
    with fk show False by simp
  qed
  with k have jn: "j < length secs" by simp
  have fj: "off + sz \<le> End (secs ! j)" using ix(3) jn by blast
  have cj: "sectionContains (secs ! j) off sz \<and> (0 < sz \<longrightarrow> j = k)"
  proof (cases "j = k")
    case True
    with ck show ?thesis by simp
  next
    case False
    with jk have lt: "j < k" by simp
    from srt lt k have e: "End (secs ! j) \<le> End (secs ! k)"
      by (simp add: sortedByEnd_def sorted_wrt_iff_nth_less)
    from nol lt k have no: "\<not> overlap (secs ! j) (secs ! k)"
      by (simp add: nonOverlapping_def sorted_wrt_iff_nth_less)
    from nem jn have ne: "Start (secs ! j) < End (secs ! j)"
      by (simp add: nonEmptySections_def list_all_length)
    from no e ne have sk: "End (secs ! j) \<le> Start (secs ! k)"
      by (auto simp: overlap_def min_def max_def not_less split: if_splits)
    from ck have "unat (Start (secs ! k)) \<le> unat off" "unat off + unat sz \<le> unat (End (secs ! k))"
      by (simp_all add: sectionContains_def)
    moreover from sk have "unat (End (secs ! j)) \<le> unat (Start (secs ! k))"
      by (simp add: word_le_nat_alt)
    moreover from fj have "unat off + unat sz \<le> unat (End (secs ! j))"
      by (simp add: word_le_nat_alt sum)
    moreover from ne have "unat (Start (secs ! j)) < unat (End (secs ! j))"
      by (simp add: word_less_nat_alt)
    ultimately have "unat sz = 0" "unat (Start (secs ! j)) \<le> unat off"
      "unat off + unat sz \<le> unat (End (secs ! j))"
      by linarith+
    then show ?thesis
      by (simp add: sectionContains_def unat_eq_0)
  qed
  then have "Start (secs ! j) \<le> off \<and> off + sz \<le> End (secs ! j)"
    by (simp add: sectionContains_def word_le_nat_alt sum)
  with jn have "findSection secs off sz = Some (secs ! j)"
    by (simp add: findSection_def j_def [symmetric] Let_def)
  with jk cj show ?thesis by blast
qed

lemma findSection_sound:
  assumes srt: "sortedByEnd secs" and nov: "unat off + unat sz < 2 ^ 32"
    and r: "findSection secs off sz = Some s"
  shows "\<exists>j<length secs. s = secs ! j \<and> sectionContains s off sz
           \<and> off + sz \<le> End (secs ! j) \<and> (\<forall>i<j. End (secs ! i) < off + sz)"
proof -
  define j where "j = sort_Search (length secs) (\<lambda>i. End (secs ! i) \<ge> off + sz)"
  note ix = findSection_index [OF srt nov, folded j_def]
  have sum: "unat (off + sz) = unat off + unat sz"
    by (rule unat_sum_no_wrap [OF nov])
  from r have jn: "j \<noteq> length secs" and s: "s = secs ! j"
    and c: "Start (secs ! j) \<le> off \<and> off + sz \<le> End (secs ! j)"
    by (auto simp: findSection_def j_def [symmetric] Let_def split: if_splits)
  from jn ix(1) have "j < length secs" by simp
  moreover from c s have "sectionContains s off sz"
    by (simp add: sectionContains_def word_le_nat_alt sum)
  ultimately show ?thesis using s c ix(2) by blast
qed



section \<open>docIterator.next: candidates stay inside their document, in order\<close>

lemma next_loop_scan:
  "next_loop q pl es fs ls i cands =
     (case scan q pl es fs ls i of Inl e \<Rightarrow> Inl e | Inr (cs, r) \<Rightarrow> Inr (cands @ cs, r))"
proof (induction q pl es fs ls i cands rule: next_loop.induct)
  case (1 q pl es ls i cands)
  then show ?case by simp
next
  case (2 q pl es p1 fs i cands)
  then show ?case by simp
next
  case (3 q pl es p1 fs p2 ls i cands)
  then show ?case
    by (simp add: Let_def split: sum.splits prod.splits)
qed

lemma advanceFile_ge: "i \<le> advanceFile es i p"
proof (induction es i p rule: advanceFile.induct)
  case (1 es i p1)
  show ?case
  proof (cases "i < length es \<and> es ! i \<le> p1")
    case True
    then have "advanceFile es i p1 = advanceFile es (i + 1) p1"
      by (subst advanceFile.simps) simp
    with "1.IH" [OF True] show ?thesis by simp
  next
    case False
    then have "advanceFile es i p1 = i"
      by (subst advanceFile.simps) auto
    then show ?thesis by simp
  qed
qed

lemma advanceFile_skipped:
  "i \<le> k \<Longrightarrow> k < advanceFile es i p \<Longrightarrow> k < length es \<and> es ! k \<le> p"
proof (induction es i p rule: advanceFile.induct)
  case (1 es i p1)
  show ?case
  proof (cases "i < length es \<and> es ! i \<le> p1")
    case True
    then have eq: "advanceFile es i p1 = advanceFile es (i + 1) p1"
      by (subst advanceFile.simps) simp
    show ?thesis
    proof (cases "k = i")
      case True
      with \<open>i < length es \<and> es ! i \<le> p1\<close> show ?thesis by simp
    next
      case False
      with "1.prems" have "i + 1 \<le> k" by simp
      with "1.IH" [OF True] "1.prems" eq show ?thesis by simp
    qed
  next
    case False
    then have "advanceFile es i p1 = i"
      by (subst advanceFile.simps) auto
    with "1.prems" show ?thesis by simp
  qed
qed

lemma advanceFile_stop:
  "advanceFile es i p < length es \<Longrightarrow> p < es ! advanceFile es i p"
proof (induction es i p rule: advanceFile.induct)
  case (1 es i p1)
  show ?case
  proof (cases "i < length es \<and> es ! i \<le> p1")
    case True
    then have eq: "advanceFile es i p1 = advanceFile es (i + 1) p1"
      by (subst advanceFile.simps) simp
    with "1.IH" [OF True] "1.prems" show ?thesis by simp
  next
    case False
    then have eq: "advanceFile es i p1 = i"
      by (subst advanceFile.simps) auto
    with "1.prems" False show ?thesis by (simp add: not_le)
  qed
qed

lemma cursorInv_tl: "cursorInv es i (p # fs) \<Longrightarrow> cursorInv es i fs"
  by (simp add: cursorInv_def)

lemma cursorInv_advance:
  assumes "cursorInv es i (p1 # fs)" "sorted (p1 # fs)"
  shows "cursorInv es (advanceFile es i p1) (p1 # fs)"
  unfolding cursorInv_def
proof (intro allI impI ballI)
  fix k p assume k: "k < advanceFile es i p1" "k < length es" and p: "p \<in> set (p1 # fs)"
  show "es ! k \<le> p"
  proof (cases "k < i")
    case True
    with assms(1) k p show ?thesis unfolding cursorInv_def by blast
  next
    case False
    then have "i \<le> k" by simp
    from advanceFile_skipped [OF this k(1)] have "es ! k \<le> p1" by simp
    moreover from assms(2) p have "p1 \<le> p" by auto
    ultimately show ?thesis by (rule order_trans)
  qed
qed

lemma emit_head:
  assumes inv: "cursorInv es i' (p1 # fs)" and lt: "i' < length es"
    and stop: "p1 < es ! i'" and keep: "\<not> es ! i' \<le> p1 + pl"
  shows "emittedAt es pl
           \<lparr>query = q, substrBytes = sb, lowered = lw, caseMask = None, caseBits = None,
            file' = of_nat i', offset = p1 - (if i' > 0 then 0 + es ! (i' - 1) else 0),
            fileName = False, matchSz = 0\<rparr> i' p1"
proof -
  have "docStart es i' \<le> p1"
  proof (cases "i' > 0")
    case True
    then have "i' - 1 < i'" by simp
    moreover have "i' - 1 < length es" using lt by simp
    ultimately have "es ! (i' - 1) \<le> p1" using inv by (simp add: cursorInv_def)
    with True show ?thesis by (simp add: docStart_def)
  next
    case False
    then show ?thesis by (simp add: docStart_def)
  qed
  with lt stop keep show ?thesis
    by (simp add: emittedAt_def docStart_def not_le)
qed

lemma scan_emitted:
  assumes "scan q pl es fs ls i = Inr (cs, r)" and "cursorInv es i fs" and "sorted fs"
  shows "\<forall>c\<in>set cs. \<exists>F p. i \<le> F \<and> p \<in> set fs \<and> emittedAt es pl c F p"
  using assms
proof (induction q pl es fs ls i arbitrary: cs r rule: scan.induct)
  case (1 q pl es ls i)
  then show ?case by simp
next
  case (2 q pl es p1 fs i)
  then show ?case by simp
next
  case (3 q pl es p1 fs p2 ls i)
  define i' where "i' = advanceFile es i p1"
  have ii': "i \<le> i'" unfolding i'_def by (rule advanceFile_ge)
  have inv': "cursorInv es i' (p1 # fs)"
    unfolding i'_def using "3.prems"(2,3) by (rule cursorInv_advance)
  then have invt: "cursorInv es i' fs" by (rule cursorInv_tl)
  have st: "sorted fs" using "3.prems"(3) by simp
  consider (a) "p1 + (pl - NGRAM) < p2"
    | (b) "\<not> p1 + (pl - NGRAM) < p2" "p1 + (pl - NGRAM) > p2"
    | (c) "\<not> p1 + (pl - NGRAM) < p2" "\<not> p1 + (pl - NGRAM) > p2"
    by blast
  then show ?case
  proof cases
    case a
    with "3.prems"(1) have "scan q pl es fs (p2 # ls) i' = Inr (cs, r)"
      by (simp add: Let_def i'_def)
    from "3.IH"(1) [OF i'_def [symmetric, THEN sym] refl a this invt st]
    show ?thesis using ii' by (meson le_trans list.set_intros(2))
  next
    case b
    with "3.prems"(1) have "scan q pl es (p1 # fs) ls i' = Inr (cs, r)"
      by (simp add: Let_def i'_def)
    from "3.IH"(2) [OF i'_def [symmetric, THEN sym] refl b this inv' "3.prems"(3)]
    show ?thesis using ii' by (meson le_trans)
  next
    case c
    with "3.prems"(1) have lt: "i' < length es"
      by (auto simp: Let_def i'_def split: if_splits)
    show ?thesis
    proof (cases "p1 + pl \<ge> es ! i'")
      case True
      with c lt "3.prems"(1) have "scan q pl es fs ls i' = Inr (cs, r)"
        by (simp add: Let_def i'_def)
      from "3.IH"(3) [OF i'_def [symmetric, THEN sym] refl c lt True this invt st]
      show ?thesis using ii' by (meson le_trans list.set_intros(2))
    next
      case False
      let ?c = "\<lparr>query = q, substrBytes = Pattern q, lowered = toLower (Pattern q),
                 caseMask = None, caseBits = None, file' = of_nat i',
                 offset = p1 - (if i' > 0 then 0 + es ! (i' - 1) else 0),
                 fileName = False, matchSz = 0\<rparr>"
      from c lt False "3.prems"(1) obtain cs' where
        rec: "scan q pl es fs ls i' = Inr (cs', r)" and cs: "cs = ?c # cs'"
        by (auto simp: Let_def i'_def split: sum.splits)
      have stop: "p1 < es ! i'"
        using lt unfolding i'_def by (rule advanceFile_stop)
      have hd: "emittedAt es pl ?c i' p1"
        using inv' lt stop False by (rule emit_head)
      from "3.IH"(4) [OF i'_def [symmetric, THEN sym] refl c lt False rec invt st]
      have tl: "\<forall>c\<in>set cs'. \<exists>F p. i \<le> F \<and> p \<in> set (p1 # fs) \<and> emittedAt es pl c F p"
        using ii' by (meson le_trans list.set_intros(2))
      from hd ii' have "\<exists>F p. i \<le> F \<and> p \<in> set (p1 # fs) \<and> emittedAt es pl ?c F p"
        by (meson list.set_intros(1))
      with tl cs show ?thesis by simp
    qed
  qed
qed

lemma strictly_ascending_length:
  fixes es :: "u32 list"
  assumes "sorted_wrt (<) es"
  shows "length es \<le> 2 ^ 32"
proof -
  from assms have "distinct es" by (simp add: strict_sorted_iff)
  then have "length es = card (set es)" by (simp add: distinct_card)
  also have "\<dots> \<le> card (UNIV :: u32 set)" by (rule card_mono) simp_all
  also have "\<dots> = 2 ^ 32" by (simp add: card_word)
  finally show ?thesis .
qed

lemma unat_of_nat_u32: "n < 2 ^ 32 \<Longrightarrow> unat (of_nat n :: u32) = n"
  by (simp add: unat_of_nat)

lemma emitted_candLe:
  assumes a: "emittedAt es pl a F p" and b: "emittedAt es pl b G r"
    and FG: "F \<le> G" and pr: "p \<le> r" and len: "length es \<le> 2 ^ 32"
  shows "candLe a b"
proof (cases "F = G")
  case True
  from a have 1: "docStart es F \<le> p" "offset a = p - docStart es F" "file' a = of_nat F"
    by (simp_all add: emittedAt_def)
  from b True have 2: "offset b = r - docStart es F" "file' b = of_nat F"
    by (simp_all add: emittedAt_def)
  from 1(1) pr have "docStart es F \<le> r" by (rule order_trans)
  with 1(1) pr have "p - docStart es F \<le> r - docStart es F"
    by (simp add: word_le_nat_alt unat_sub)
  with 1 2 show ?thesis by (simp add: candLe_def)
next
  case False
  with FG have lt: "F < G" by simp
  from b len have G: "G < 2 ^ 32" by (simp add: emittedAt_def)
  with lt have F: "F < 2 ^ 32" by simp
  from a b have "file' a = of_nat F" "file' b = of_nat G" by (simp_all add: emittedAt_def)
  with lt F G have "file' a < file' b"
    by (simp add: word_less_nat_alt unat_of_nat_u32)
  then show ?thesis by (simp add: candLe_def)
qed


lemma scan_sorted:
  assumes "scan q pl es fs ls i = Inr (cs, r)" and "cursorInv es i fs" and "sorted fs"
    and len: "length es \<le> 2 ^ 32"
  shows "sorted_wrt candLe cs"
  using assms
proof (induction q pl es fs ls i arbitrary: cs r rule: scan.induct)
  case (1 q pl es ls i)
  then show ?case by simp
next
  case (2 q pl es p1 fs i)
  then show ?case by simp
next
  case (3 q pl es p1 fs p2 ls i)
  define i' where "i' = advanceFile es i p1"
  have inv': "cursorInv es i' (p1 # fs)"
    unfolding i'_def using "3.prems"(2,3) by (rule cursorInv_advance)
  then have invt: "cursorInv es i' fs" by (rule cursorInv_tl)
  have st: "sorted fs" using "3.prems"(3) by simp
  note len = "3.prems"(4)
  consider (a) "p1 + (pl - NGRAM) < p2"
    | (b) "\<not> p1 + (pl - NGRAM) < p2" "p1 + (pl - NGRAM) > p2"
    | (c) "\<not> p1 + (pl - NGRAM) < p2" "\<not> p1 + (pl - NGRAM) > p2"
    by blast
  then show ?case
  proof cases
    case a
    with "3.prems"(1) have "scan q pl es fs (p2 # ls) i' = Inr (cs, r)"
      by (simp add: Let_def i'_def)
    from "3.IH"(1) [OF i'_def [symmetric, THEN sym] refl a this invt st len]
    show ?thesis .
  next
    case b
    with "3.prems"(1) have "scan q pl es (p1 # fs) ls i' = Inr (cs, r)"
      by (simp add: Let_def i'_def)
    from "3.IH"(2) [OF i'_def [symmetric, THEN sym] refl b this inv' "3.prems"(3) len]
    show ?thesis .
  next
    case c
    with "3.prems"(1) have lt: "i' < length es"
      by (auto simp: Let_def i'_def split: if_splits)
    show ?thesis
    proof (cases "p1 + pl \<ge> es ! i'")
      case True
      with c lt "3.prems"(1) have "scan q pl es fs ls i' = Inr (cs, r)"
        by (simp add: Let_def i'_def)
      from "3.IH"(3) [OF i'_def [symmetric, THEN sym] refl c lt True this invt st len]
      show ?thesis .
    next
      case False
      let ?c = "\<lparr>query = q, substrBytes = Pattern q, lowered = toLower (Pattern q),
                 caseMask = None, caseBits = None, file' = of_nat i',
                 offset = p1 - (if i' > 0 then 0 + es ! (i' - 1) else 0),
                 fileName = False, matchSz = 0\<rparr>"
      from c lt False "3.prems"(1) obtain cs' where
        rec: "scan q pl es fs ls i' = Inr (cs', r)" and cs: "cs = ?c # cs'"
        by (auto simp: Let_def i'_def split: sum.splits)
      have stop: "p1 < es ! i'"
        using lt unfolding i'_def by (rule advanceFile_stop)
      have hd: "emittedAt es pl ?c i' p1"
        using inv' lt stop False by (rule emit_head)
      have tl: "sorted_wrt candLe cs'"
        by (rule "3.IH"(4) [OF i'_def [symmetric, THEN sym] refl c lt False rec invt st len])
      have "\<forall>c\<in>set cs'. candLe ?c c"
      proof
        fix c assume "c \<in> set cs'"
        with scan_emitted [OF rec invt st] obtain F p where
          Fp: "i' \<le> F" "p \<in> set fs" "emittedAt es pl c F p" by blast
        from Fp(2) "3.prems"(3) have "p1 \<le> p" by auto
        with hd Fp(3) Fp(1) show "candLe ?c c" using len by (rule emitted_candLe)
      qed
      with tl cs show ?thesis by simp
    qed
  qed
qed

lemma scan_total:
  assumes "cursorInv es i fs" and "sorted fs"
    and "\<forall>p\<in>set fs. \<exists>e\<in>set es. p < e"
  shows "\<exists>cs r. scan q pl es fs ls i = Inr (cs, r)"
  using assms
proof (induction q pl es fs ls i rule: scan.induct)
  case (1 q pl es ls i)
  then show ?case by simp
next
  case (2 q pl es p1 fs i)
  then show ?case by simp
next
  case (3 q pl es p1 fs p2 ls i)
  define i' where "i' = advanceFile es i p1"
  have inv': "cursorInv es i' (p1 # fs)"
    unfolding i'_def using "3.prems"(1,2) by (rule cursorInv_advance)
  then have invt: "cursorInv es i' fs" by (rule cursorInv_tl)
  have st: "sorted fs" using "3.prems"(2) by simp
  have sh: "\<forall>p\<in>set fs. \<exists>e\<in>set es. p < e" using "3.prems"(3) by simp
  have lt: "i' < length es"
  proof (rule ccontr)
    assume n: "\<not> i' < length es"
    from "3.prems"(3) obtain k where k: "k < length es" "p1 < es ! k"
      by (metis in_set_conv_nth list.set_intros(1))
    with n have "k < i'" by simp
    with inv' k(1) have "es ! k \<le> p1" by (simp add: cursorInv_def)
    with k(2) show False by simp
  qed
  consider (a) "p1 + (pl - NGRAM) < p2"
    | (b) "\<not> p1 + (pl - NGRAM) < p2" "p1 + (pl - NGRAM) > p2"
    | (c) "\<not> p1 + (pl - NGRAM) < p2" "\<not> p1 + (pl - NGRAM) > p2"
    by blast
  then show ?case
  proof cases
    case a
    from "3.IH"(1) [OF i'_def [symmetric, THEN sym] refl a invt st sh] a
    show ?thesis by (simp add: Let_def i'_def)
  next
    case b
    from "3.IH"(2) [OF i'_def [symmetric, THEN sym] refl b inv' "3.prems"(2,3)] b
    show ?thesis by (simp add: Let_def i'_def)
  next
    case c
    show ?thesis
    proof (cases "p1 + pl \<ge> es ! i'")
      case True
      from "3.IH"(3) [OF i'_def [symmetric, THEN sym] refl c lt True invt st sh] c lt True
      show ?thesis by (simp add: Let_def i'_def)
    next
      case False
      from "3.IH"(4) [OF i'_def [symmetric, THEN sym] refl c lt False invt st sh] c lt False
      show ?thesis by (auto simp add: Let_def i'_def)
    qed
  qed
qed

lemma docIterator_next_scan:
  "docIterator_next s =
     (case scan (s_query s) (patLen s) (ends s) (first' s) (last' s) (fileIdx s) of
        Inl e \<Rightarrow> Inl e
      | Inr (cs, fs, ls, i) \<Rightarrow> Inr (cs, s\<lparr>first' := fs, last' := ls, fileIdx := i\<rparr>))"
  by (simp add: docIterator_next_def next_loop_scan split: sum.splits prod.splits)

lemma cursorInv_0: "cursorInv es 0 fs"
  by (simp add: cursorInv_def)


lemma next_from_start:
  assumes "sorted (first' s)" and "fileIdx s = 0"
    and "\<forall>p\<in>set (first' s). \<exists>e\<in>set (ends s). p < e"
  obtains cs fs ls i where
    "scan (s_query s) (patLen s) (ends s) (first' s) (last' s) (fileIdx s) = Inr (cs, fs, ls, i)"
    and "docIterator_next s = Inr (cs, s\<lparr>first' := fs, last' := ls, fileIdx := i\<rparr>)"
proof -
  have inv: "cursorInv (ends s) (fileIdx s) (first' s)"
    using assms(2) by (simp add: cursorInv_0)
  from scan_total [OF inv assms(1) assms(3)]
  obtain cs r where
    "scan (s_query s) (patLen s) (ends s) (first' s) (last' s) (fileIdx s) = Inr (cs, r)"
    by blast
  then show thesis
    by (cases r) (auto simp: docIterator_next_scan intro: that)
qed



text \<open>
  C4. Under the same conditions on the iterator, the candidates \<^verbatim>\<open>docIterator.next\<close>
  returns are in non-decreasing order of document index, and within one document in
  non-decreasing order of offset.
\<close>

theorem next_candidates_monotone:
  assumes asc: "sorted (first' s)" and ascE: "sorted_wrt (<) (ends s)"
    and start: "fileIdx s = 0"
    and shard: "\<forall>p\<in>set (first' s). \<exists>e\<in>set (ends s). p < e"
  shows "\<exists>cands s'. docIterator_next s = Inr (cands, s') \<and> sorted_wrt candLe cands"
proof -
  from asc start shard obtain cs fs ls i where
    sc: "scan (s_query s) (patLen s) (ends s) (first' s) (last' s) (fileIdx s) = Inr (cs, fs, ls, i)"
    and nx: "docIterator_next s = Inr (cs, s\<lparr>first' := fs, last' := ls, fileIdx := i\<rparr>)"
    by (rule next_from_start)
  have inv: "cursorInv (ends s) (fileIdx s) (first' s)"
    using start by (simp add: cursorInv_0)
  have len: "length (ends s) \<le> 2 ^ 32"
    using ascE by (rule strictly_ascending_length)
  from scan_sorted [OF sc inv asc len] nx show ?thesis by blast
qed

theorem next_candidates_monotone_witness:
  "sorted (first' exampleIterator) \<and> sorted_wrt (<) (ends exampleIterator)
   \<and> fileIdx exampleIterator = 0
   \<and> list_all (\<lambda>p. list_ex (\<lambda>e. p < e) (ends exampleIterator)) (first' exampleIterator)
   \<and> (\<exists>cands s'. docIterator_next exampleIterator = Inr (cands, s')
        \<and> sorted_wrt candLe cands)"
proof -
  have h: "sorted (first' exampleIterator)" "sorted_wrt (<) (ends exampleIterator)"
    "fileIdx exampleIterator = 0"
    "\<forall>p\<in>set (first' exampleIterator). \<exists>e\<in>set (ends exampleIterator). p < e"
    by (simp_all add: exampleIterator_def)
  from h next_candidates_monotone [OF h] show ?thesis
    by (simp add: list_all_iff list_ex_iff)
qed

text \<open>The run of the example iterator: the occurrence at shard offset 8 is dropped.\<close>

lemma docIterator_next_example:
  "docIterator_next exampleIterator =
     Inr ([\<lparr>query = \<lparr>Pattern = [99, 100, 101, 102, 103], CaseSensitive = True\<rparr>,
             substrBytes = [99, 100, 101, 102, 103], lowered = [99, 100, 101, 102, 103],
             caseMask = None, caseBits = None, file' = 0, offset = 3,
             fileName = False, matchSz = 0\<rparr>,
           \<lparr>query = \<lparr>Pattern = [99, 100, 101, 102, 103], CaseSensitive = True\<rparr>,
             substrBytes = [99, 100, 101, 102, 103], lowered = [99, 100, 101, 102, 103],
             caseMask = None, caseBits = None, file' = 1, offset = 3,
             fileName = False, matchSz = 0\<rparr>],
          exampleIterator\<lparr>first' := [], last' := [], fileIdx := 1\<rparr>)"
  by (simp add: docIterator_next_def exampleIterator_def advanceFile.simps NGRAM_def
      Let_def toLower_def)

section \<open>matchScore: word and symbol scores, and the maximum over the fragments\<close>

lemma startBoundary_inline:
  assumes "0 \<le> LineOff f" and "LineOff f < int (length ln)"
  shows "startBoundary bc ln f =
           Inr (LineOff f = 0 \<or> bc (ln ! nat (LineOff f - 1)) \<noteq> bc (ln ! nat (LineOff f)))"
  using assms by (simp add: startBoundary_def indexI_def)

lemma endBoundary_inline:
  assumes "0 < LineOff f + MatchLength f" and "LineOff f + MatchLength f \<le> int (length ln)"
  shows "endBoundary bc ln f =
           Inr (LineOff f + MatchLength f = int (length ln)
                \<or> bc (ln ! nat (LineOff f + MatchLength f - 1))
                     \<noteq> bc (ln ! nat (LineOff f + MatchLength f)))"
  using assms by (simp add: endBoundary_def indexI_def Let_def)

lemma unat_of_int_u32:
  assumes "0 \<le> n" and "n < 2 ^ 32"
  shows "unat (of_int n :: u32) = nat n"
proof -
  have "(of_int n :: u32) = of_nat (nat n)" using assms(1) by simp
  moreover have "nat n < 2 ^ 32" using assms by (simp add: nat_less_iff)
  ultimately show ?thesis by (simp add: unat_of_nat)
qed

lemma fragment_no_wrap:
  assumes "0 < ml" and "uint off + ml < 2 ^ 32"
  shows "unat off + unat (of_int ml :: u32) < 2 ^ 32" and "0 < (of_int ml :: u32)"
    and "unat (of_int ml :: u32) = nat ml"
proof -
  have o: "0 \<le> uint off" by simp
  with assms have b: "0 \<le> ml" "ml < 2 ^ 32" by linarith+
  then show u: "unat (of_int ml :: u32) = nat ml" by (rule unat_of_int_u32)
  have "unat off + nat ml = nat (uint off + ml)"
    unfolding nat_add_distrib [OF o b(1)] unat_eq_nat_uint ..
  also have "\<dots> < 2 ^ 32" using assms(2) by (simp add: nat_less_iff)
  finally show "unat off + unat (of_int ml :: u32) < 2 ^ 32" unfolding u .
  from u assms(1) show "0 < (of_int ml :: u32)"
    by (simp add: word_less_nat_alt)
qed

lemma fragmentScore_contained:
  assumes inv: "sortedByEnd secs" "nonOverlapping secs" "nonEmptySections secs"
    and sb: "startBoundary bc ln f = Inr sb" and eb: "endBoundary bc ln f = Inr eb"
    and ml: "0 < MatchLength f" and nw: "uint (Offset f) + MatchLength f < 2 ^ 32"
    and s: "s \<in> set secs" and c: "sectionContains s (Offset f) (of_int (MatchLength f))"
  shows "fragmentScore bc secs ln f =
           Inr ((if sb \<and> eb then 500 else if sb \<or> eb then 50 else 0)
                + (if Start s = Offset f \<and> End s = Offset f + of_int (MatchLength f) then 7000
                   else if Start s = Offset f \<or> End s = Offset f + of_int (MatchLength f)
                   then 5500 else 4000))"
proof -
  from s obtain k where k: "k < length secs" "s = secs ! k" by (metis in_set_conv_nth)
  from c k have ck: "sectionContains (secs ! k) (Offset f) (of_int (MatchLength f))" by simp
  note nwf = fragment_no_wrap [OF ml nw]
  from findSection_complete [OF inv nwf(1) k(1) ck] nwf(2) k(2)
  have "findSection secs (Offset f) (of_int (MatchLength f)) = Some s" by auto
  then show ?thesis
    by (simp add: fragmentScore_def sb eb Let_def scoreWordMatch_def scorePartialWordMatch_def
        scoreSymbol_def scorePartialSymbol_def)
qed

lemma fragmentScore_not_contained:
  assumes inv: "sortedByEnd secs"
    and sb: "startBoundary bc ln f = Inr sb" and eb: "endBoundary bc ln f = Inr eb"
    and ml: "0 < MatchLength f" and nw: "uint (Offset f) + MatchLength f < 2 ^ 32"
    and c: "\<forall>s\<in>set secs. \<not> sectionContains s (Offset f) (of_int (MatchLength f))"
  shows "fragmentScore bc secs ln f = Inr (if sb \<and> eb then 500 else if sb \<or> eb then 50 else 0)"
proof -
  note nwf = fragment_no_wrap [OF ml nw]
  have "findSection secs (Offset f) (of_int (MatchLength f)) = None"
  proof (rule ccontr)
    assume "findSection secs (Offset f) (of_int (MatchLength f)) \<noteq> None"
    then obtain s where "findSection secs (Offset f) (of_int (MatchLength f)) = Some s" by blast
    from findSection_sound [OF inv nwf(1) this] c show False by (metis nth_mem)
  qed
  then show ?thesis
    by (simp add: fragmentScore_def sb eb Let_def scoreWordMatch_def scorePartialWordMatch_def)
qed

lemma fragmentScore_nonneg:
  "fragmentScore bc secs ln f = Inr v \<Longrightarrow> 0 \<le> v"
  by (auto simp: fragmentScore_def Let_def scoreWordMatch_def scorePartialWordMatch_def
      scoreSymbol_def scorePartialSymbol_def split: sum.splits option.splits if_splits)

lemma matchScore_loop_max:
  assumes "list_all2 (\<lambda>f v. fragmentScore bc secs ln f = Inr v) fs vs"
  shows "matchScore_loop bc secs ln fs mx = Inr (Max (insert mx (set vs)))"
  using assms
proof (induction fs vs arbitrary: mx rule: list_all2_induct)
  case Nil
  then show ?case by simp
next
  case (Cons f fs v vs)
  have "Max (insert (max mx v) (set vs)) = Max (insert mx (insert v (set vs)))"
    by (metis List.finite_set Max_insert Max_singleton finite.insertI insert_not_empty max.assoc)
  with Cons show ?case
    by (simp add: max_def not_less split: if_splits)
qed

lemma fragmentScore_example_whole:
  "fragmentScore exampleByteClass exampleSections (Line exampleMatch) \<lparr>LineOff = 0, MatchLength = 5, Offset = 3\<rparr> = Inr 7500"
  by (simp add: fragmentScore_def startBoundary_def endBoundary_def indexI_def exampleMatch_def
      exampleSections_def findSection_def sort_Search_def sort_Search_loop.simps Let_def
      scoreWordMatch_def scorePartialWordMatch_def scoreSymbol_def scorePartialSymbol_def)

lemma fragmentScore_example_inner:
  "fragmentScore exampleByteClass exampleSections (Line exampleMatch) \<lparr>LineOff = 1, MatchLength = 2, Offset = 4\<rparr> = Inr 4000"
  by (simp add: fragmentScore_def startBoundary_def endBoundary_def indexI_def exampleMatch_def
      exampleSections_def findSection_def sort_Search_def sort_Search_loop.simps Let_def
      exampleByteClass_def
      scoreWordMatch_def scorePartialWordMatch_def scoreSymbol_def scorePartialSymbol_def)

text \<open>
  C6. The score of a fragment that lies in its line (\<^verbatim>\<open>0 <= LineOff\<close>, a positive
  \<^verbatim>\<open>MatchLength\<close>, \<^verbatim>\<open>LineOff + MatchLength <= len(Line)\<close>) and in the 32-bit offset
  space, over a section table that satisfies its invariant. The start is a boundary when
  \<^verbatim>\<open>LineOff\<close> is 0 or the byte classes before and at the start differ; the end is a
  boundary when the fragment ends the line or the byte classes before and at the end
  differ. The word score is 500 when both are boundaries, 50 when exactly one is, 0 when
  neither is. A section that fully contains the fragment adds 7000 when its \<^verbatim>\<open>Start\<close>
  and \<^verbatim>\<open>End\<close> are both the fragment's bounds, 5500 when exactly one is, 4000 when
  neither is; when no section contains the fragment nothing is added. So a fragment with
  both boundaries that exactly spans a section scores 7500, and one with neither
  boundary and no containing section scores 0.
\<close>

theorem fragmentScore_word_plus_symbol:
  assumes inv: "sortedByEnd secs" "nonOverlapping secs" "nonEmptySections secs"
    and lo: "0 \<le> LineOff f" and ml: "0 < MatchLength f"
    and inl: "LineOff f + MatchLength f \<le> int (length ln)"
    and nw: "uint (Offset f) + MatchLength f < 2 ^ 32"
  shows "\<exists>sb eb. startBoundary bc ln f = Inr sb \<and> endBoundary bc ln f = Inr eb
     \<and> sb = (LineOff f = 0 \<or> bc (ln ! nat (LineOff f - 1)) \<noteq> bc (ln ! nat (LineOff f)))
     \<and> eb = (LineOff f + MatchLength f = int (length ln)
              \<or> bc (ln ! nat (LineOff f + MatchLength f - 1))
                   \<noteq> bc (ln ! nat (LineOff f + MatchLength f)))
     \<and> (\<forall>s\<in>set secs. sectionContains s (Offset f) (of_int (MatchLength f)) \<longrightarrow>
           fragmentScore bc secs ln f =
             Inr ((if sb \<and> eb then 500 else if sb \<or> eb then 50 else 0)
                  + (if Start s = Offset f \<and> End s = Offset f + of_int (MatchLength f) then 7000
                     else if Start s = Offset f \<or> End s = Offset f + of_int (MatchLength f)
                     then 5500 else 4000)))
     \<and> ((\<forall>s\<in>set secs. \<not> sectionContains s (Offset f) (of_int (MatchLength f))) \<longrightarrow>
           fragmentScore bc secs ln f =
             Inr (if sb \<and> eb then 500 else if sb \<or> eb then 50 else 0))
     \<and> (sb \<and> eb \<and> (\<exists>s\<in>set secs. Start s = Offset f
                          \<and> End s = Offset f + of_int (MatchLength f)) \<longrightarrow>
           fragmentScore bc secs ln f = Inr 7500)
     \<and> (\<not> sb \<and> \<not> eb
          \<and> (\<forall>s\<in>set secs. \<not> sectionContains s (Offset f) (of_int (MatchLength f))) \<longrightarrow>
           fragmentScore bc secs ln f = Inr 0)"
proof -
  define sb where "sb = (LineOff f = 0 \<or> bc (ln ! nat (LineOff f - 1)) \<noteq> bc (ln ! nat (LineOff f)))"
  define eb where "eb = (LineOff f + MatchLength f = int (length ln)
              \<or> bc (ln ! nat (LineOff f + MatchLength f - 1))
                   \<noteq> bc (ln ! nat (LineOff f + MatchLength f)))"
  have s: "startBoundary bc ln f = Inr sb"
    unfolding sb_def using lo ml inl by (intro startBoundary_inline) linarith+
  have e: "endBoundary bc ln f = Inr eb"
    unfolding eb_def using lo ml inl by (intro endBoundary_inline) linarith+
  note nwf = fragment_no_wrap [OF ml nw]
  have c: "\<forall>s\<in>set secs. sectionContains s (Offset f) (of_int (MatchLength f)) \<longrightarrow>
           fragmentScore bc secs ln f =
             Inr ((if sb \<and> eb then 500 else if sb \<or> eb then 50 else 0)
                  + (if Start s = Offset f \<and> End s = Offset f + of_int (MatchLength f) then 7000
                     else if Start s = Offset f \<or> End s = Offset f + of_int (MatchLength f)
                     then 5500 else 4000))"
    using fragmentScore_contained [OF inv s e ml nw] by blast
  have n: "(\<forall>s\<in>set secs. \<not> sectionContains s (Offset f) (of_int (MatchLength f))) \<longrightarrow>
           fragmentScore bc secs ln f =
             Inr (if sb \<and> eb then 500 else if sb \<or> eb then 50 else 0)"
    using fragmentScore_not_contained [OF inv(1) s e ml nw] by blast
  have x: "sb \<and> eb \<and> (\<exists>s\<in>set secs. Start s = Offset f
                          \<and> End s = Offset f + of_int (MatchLength f)) \<longrightarrow>
           fragmentScore bc secs ln f = Inr 7500"
  proof
    assume h: "sb \<and> eb \<and> (\<exists>s\<in>set secs. Start s = Offset f
                          \<and> End s = Offset f + of_int (MatchLength f))"
    then obtain s where s: "s \<in> set secs" "Start s = Offset f"
      "End s = Offset f + of_int (MatchLength f)" by blast
    have "unat (Offset f + of_int (MatchLength f)) = unat (Offset f) + unat (of_int (MatchLength f) :: u32)"
      by (rule unat_sum_no_wrap [OF nwf(1)])
    with s have "sectionContains s (Offset f) (of_int (MatchLength f))"
      by (simp add: sectionContains_def)
    with c s h show "fragmentScore bc secs ln f = Inr 7500" by simp
  qed
  from n have z: "\<not> sb \<and> \<not> eb
          \<and> (\<forall>s\<in>set secs. \<not> sectionContains s (Offset f) (of_int (MatchLength f))) \<longrightarrow>
           fragmentScore bc secs ln f = Inr 0" by simp
  show ?thesis
    by (intro exI [of _ sb] exI [of _ eb] conjI s e sb_def eb_def c n x z)
qed


theorem fragmentScore_word_plus_symbol_witness:
  "sortedByEnd exampleSections \<and> nonOverlapping exampleSections
   \<and> nonEmptySections exampleSections
   \<and> 0 \<le> LineOff \<lparr>LineOff = 0, MatchLength = 5, Offset = 3\<rparr>
   \<and> 0 < MatchLength \<lparr>LineOff = 0, MatchLength = 5, Offset = 3\<rparr>
   \<and> LineOff \<lparr>LineOff = 0, MatchLength = 5, Offset = 3\<rparr>
       + MatchLength \<lparr>LineOff = 0, MatchLength = 5, Offset = 3\<rparr>
       \<le> int (length (Line exampleMatch))
   \<and> uint (Offset \<lparr>LineOff = 0, MatchLength = 5, Offset = 3\<rparr>)
       + MatchLength \<lparr>LineOff = 0, MatchLength = 5, Offset = 3\<rparr> < 2 ^ 32
   \<and> fragmentScore exampleByteClass exampleSections (Line exampleMatch)
         \<lparr>LineOff = 0, MatchLength = 5, Offset = 3\<rparr> = Inr 7500"
proof -
  let ?f = "\<lparr>LineOff = 0, MatchLength = 5, Offset = 3 :: u32\<rparr>"
  have h: "sortedByEnd exampleSections" "nonOverlapping exampleSections"
    "nonEmptySections exampleSections"
    by (simp_all add: sortedByEnd_def nonOverlapping_def nonEmptySections_def
        exampleSections_def overlap_def)
  have g: "0 \<le> LineOff ?f" "0 < MatchLength ?f"
    "LineOff ?f + MatchLength ?f \<le> int (length (Line exampleMatch))"
    "uint (Offset ?f) + MatchLength ?f < 2 ^ 32"
    by (simp_all add: exampleMatch_def)
  have x: "\<exists>s\<in>set exampleSections. Start s = Offset ?f
             \<and> End s = Offset ?f + of_int (MatchLength ?f)"
    by (simp add: exampleSections_def)
  from fragmentScore_word_plus_symbol [OF h g, of exampleByteClass]
  obtain sb eb where
    sb: "sb = (LineOff ?f = 0 \<or> exampleByteClass (Line exampleMatch ! nat (LineOff ?f - 1))
                 \<noteq> exampleByteClass (Line exampleMatch ! nat (LineOff ?f)))"
    and eb: "eb = (LineOff ?f + MatchLength ?f = int (length (Line exampleMatch))
              \<or> exampleByteClass (Line exampleMatch ! nat (LineOff ?f + MatchLength ?f - 1))
                   \<noteq> exampleByteClass (Line exampleMatch ! nat (LineOff ?f + MatchLength ?f)))"
    and r: "sb \<and> eb \<and> (\<exists>s\<in>set exampleSections. Start s = Offset ?f
                          \<and> End s = Offset ?f + of_int (MatchLength ?f)) \<longrightarrow>
           fragmentScore exampleByteClass exampleSections (Line exampleMatch) ?f = Inr 7500"
    by blast
  from sb have "sb" by simp
  moreover from eb have "eb" by (simp add: exampleMatch_def)
  ultimately have "fragmentScore exampleByteClass exampleSections (Line exampleMatch) ?f
                     = Inr 7500"
    using r x by blast
  with h g show ?thesis by blast
qed

text \<open>
  C7. For a \<^verbatim>\<open>Match\<close> with at least one fragment, each of whose fragments has a score
  (none panics), \<^verbatim>\<open>matchScore\<close> returns the maximum of the fragments' scores, not
  their sum.
\<close>

theorem matchScore_is_max_fragment_score:
  assumes ne: "Fragments m \<noteq> []"
    and sc: "list_all2 (\<lambda>f v. fragmentScore bc secs (Line m) f = Inr v) (Fragments m) vs"
  shows "matchScore bc secs m = Inr (Max (set vs))"
proof -
  from sc ne have vne: "vs \<noteq> []" by auto
  have "\<forall>v\<in>set vs. 0 \<le> v"
  proof
    fix v assume "v \<in> set vs"
    then obtain i where i: "i < length vs" "vs ! i = v"
      by (auto simp: in_set_conv_nth)
    from list_all2_nthD2 [OF sc i(1)] i(2)
    have "fragmentScore bc secs (Line m) (Fragments m ! i) = Inr v" by simp
    then show "0 \<le> v" by (rule fragmentScore_nonneg)
  qed
  moreover from vne have "Max (set vs) \<in> set vs" by (intro Max_in) simp_all
  ultimately have "0 \<le> Max (set vs)" by blast
  moreover from vne have "Max (insert 0 (set vs)) = max 0 (Max (set vs))"
    by (intro Max_insert) simp_all
  ultimately have "Max (insert 0 (set vs)) = Max (set vs)" by simp
  with matchScore_loop_max [OF sc, of 0] show ?thesis
    by (simp add: matchScore_def)
qed

theorem matchScore_is_max_fragment_score_witness:
  "Fragments exampleMatch \<noteq> []
   \<and> list_all2 (\<lambda>f v. fragmentScore exampleByteClass exampleSections (Line exampleMatch) f = Inr v)
        (Fragments exampleMatch) [7500, 4000]
   \<and> matchScore exampleByteClass exampleSections exampleMatch = Inr 7500
   \<and> sum_list [7500, 4000 :: int] = 11500"
proof -
  have ne: "Fragments exampleMatch \<noteq> []" by (simp add: exampleMatch_def)
  have sc: "list_all2
              (\<lambda>f v. fragmentScore exampleByteClass exampleSections (Line exampleMatch) f = Inr v)
              (Fragments exampleMatch) [7500, 4000]"
    using fragmentScore_example_whole fragmentScore_example_inner
    by (simp add: exampleMatch_def)
  from matchScore_is_max_fragment_score [OF ne sc]
  have "matchScore exampleByteClass exampleSections exampleMatch = Inr 7500" by simp
  with ne sc show ?thesis by simp
qed

section \<open>fillMatches on file names\<close>

lemma fragmentScore_total:
  assumes "0 \<le> LineOff f" and "LineOff f + MatchLength f \<le> int (length ln)"
  shows "\<exists>v. fragmentScore bc secs ln f = Inr v"
proof -
  have "\<exists>sb. startBoundary bc ln f = Inr sb"
    using assms(1) by (auto simp: startBoundary_def indexI_def)
  moreover have "\<exists>eb. endBoundary bc ln f = Inr eb"
    using assms by (auto simp: endBoundary_def indexI_def Let_def)
  ultimately show ?thesis
    by (auto simp: fragmentScore_def Let_def split: option.splits)
qed

lemma matchScore_loop_total:
  assumes "\<forall>f\<in>set fs. \<exists>v. fragmentScore bc secs ln f = Inr v"
  shows "\<exists>v. matchScore_loop bc secs ln fs mx = Inr v"
  using assms by (induction fs arbitrary: mx) auto

lemma fillMatches_fileName:
  assumes fn: "fileName m0"
    and inl: "\<forall>c\<in>set (m0 # ms'). uint (offset c) + uint (matchSz c)
                \<le> int (length (id_fileName (id' p) (idx p)))"
  shows "\<exists>v. fillMatches bc p (m0 # ms') =
           Some (Inr ([\<lparr>Line = id_fileName (id' p) (idx p), LineStart = 0, LineEnd = 0,
                        LineNum = 0, FileName = True,
                        Fragments = map (\<lambda>c. \<lparr>LineOff = uint (offset c),
                                                MatchLength = uint (matchSz c),
                                                Offset = offset c\<rparr>) (m0 # ms'),
                        Score = v\<rparr>], snd (docSections p)))"
proof -
  let ?frs = "map (\<lambda>c. \<lparr>LineOff = uint (offset c), MatchLength = uint (matchSz c),
                         Offset = offset c\<rparr>) (m0 # ms')"
  let ?mt = "\<lparr>Line = id_fileName (id' p) (idx p), LineStart = 0, LineEnd = 0,
              LineNum = 0, FileName = True, Fragments = ?frs, Score = 0\<rparr>"
  have "\<forall>f\<in>set ?frs. \<exists>v. fragmentScore bc (fst (docSections p)) (Line ?mt) f = Inr v"
  proof
    fix f assume "f \<in> set ?frs"
    then obtain c where c: "c \<in> set (m0 # ms')"
      "f = \<lparr>LineOff = uint (offset c), MatchLength = uint (matchSz c), Offset = offset c\<rparr>"
      by auto
    from inl c(1) have "uint (offset c) + uint (matchSz c)
                \<le> int (length (id_fileName (id' p) (idx p)))" by blast
    with c(2) show "\<exists>v. fragmentScore bc (fst (docSections p)) (Line ?mt) f = Inr v"
      by (intro fragmentScore_total) simp_all
  qed
  from matchScore_loop_total [OF this, of 0]
  obtain v where "matchScore bc (fst (docSections p)) ?mt = Inr v"
    by (auto simp: matchScore_def)
  with fn show ?thesis
    by (cases "docSections p") (auto simp: fillMatches_def)
qed

text \<open>
  C8, as the code has it. For every non-empty sequence of filename candidates that lie
  inside the file name, \<^verbatim>\<open>fillMatches\<close> returns exactly one \<^verbatim>\<open>Match\<close>, flagged as a
  filename match, whose line is the file name, with no line splitting (no line number
  and no line bounds are computed), and with one \<^verbatim>\<open>MatchFragment\<close> per candidate, in
  order: a single fragment exactly when there is a single candidate.
\<close>

theorem fillMatches_fileName_one_match:
  assumes ne: "ms \<noteq> []" and fn: "\<forall>c\<in>set ms. fileName c"
    and inl: "\<forall>c\<in>set ms. uint (offset c) + uint (matchSz c)
                \<le> int (length (id_fileName (id' p) (idx p)))"
  shows "\<exists>mt p'. fillMatches bc p ms = Some (Inr ([mt], p'))
           \<and> FileName mt \<and> Line mt = id_fileName (id' p) (idx p)
           \<and> LineStart mt = 0 \<and> LineEnd mt = 0 \<and> LineNum mt = 0
           \<and> Fragments mt = map (\<lambda>c. \<lparr>LineOff = uint (offset c),
                                         MatchLength = uint (matchSz c),
                                         Offset = offset c\<rparr>) ms
           \<and> length (Fragments mt) = length ms"
proof -
  from ne obtain m0 ms' where ms: "ms = m0 # ms'" by (cases ms) auto
  with fn have f0: "fileName m0" by simp
  from fillMatches_fileName [OF f0 inl [unfolded ms], of bc]
  obtain v where "fillMatches bc p ms =
           Some (Inr ([\<lparr>Line = id_fileName (id' p) (idx p), LineStart = 0, LineEnd = 0,
                        LineNum = 0, FileName = True,
                        Fragments = map (\<lambda>c. \<lparr>LineOff = uint (offset c),
                                                MatchLength = uint (matchSz c),
                                                Offset = offset c\<rparr>) ms,
                        Score = v\<rparr>], snd (docSections p)))"
    unfolding ms by blast
  then show ?thesis by simp
qed

text \<open>
  Two filename candidates on \<^verbatim>\<open>a.go\<close> give one \<^verbatim>\<open>Match\<close> with two fragments, not a
  single-fragment one.
\<close>

theorem fillMatches_two_name_candidates:
  "fillMatches exampleByteClass exampleProvider nameCandidates =
     Some (Inr ([\<lparr>Line = [97, 46, 103, 111], LineStart = 0, LineEnd = 0, LineNum = 0,
                  FileName = True,
                  Fragments = [\<lparr>LineOff = 0, MatchLength = 1, Offset = 0\<rparr>,
                               \<lparr>LineOff = 2, MatchLength = 2, Offset = 2\<rparr>],
                  Score = 500\<rparr>], exampleProvider))"
  by (simp add: fillMatches_def nameCandidates_def exampleProvider_def exampleIndex_def
      docSections_def slice_of_def matchScore_def fragmentScore_def startBoundary_def
      endBoundary_def indexI_def exampleByteClass_def findSection_def sort_Search_def
      sort_Search_loop.simps Let_def scoreWordMatch_def scorePartialWordMatch_def
      scoreSymbol_def scorePartialSymbol_def)

theorem fillMatches_fileName_one_match_witness:
  "nameCandidates \<noteq> [] \<and> list_all fileName nameCandidates
   \<and> list_all (\<lambda>c. uint (offset c) + uint (matchSz c)
                  \<le> int (length (id_fileName (id' exampleProvider) (idx exampleProvider))))
        nameCandidates
   \<and> (\<exists>mt p'. fillMatches exampleByteClass exampleProvider nameCandidates = Some (Inr ([mt], p'))
          \<and> FileName mt \<and> length (Fragments mt) = 2)"
proof -
  have ne: "nameCandidates \<noteq> []" by (simp add: nameCandidates_def)
  have fn: "\<forall>c\<in>set nameCandidates. fileName c" by (simp add: nameCandidates_def)
  have inl: "\<forall>c\<in>set nameCandidates. uint (offset c) + uint (matchSz c)
                \<le> int (length (id_fileName (id' exampleProvider) (idx exampleProvider)))"
    by (simp add: nameCandidates_def exampleProvider_def exampleIndex_def)
  have l: "length nameCandidates = 2" by (simp add: nameCandidates_def)
  from fillMatches_fileName_one_match [OF ne fn inl, of exampleByteClass] l
  have "\<exists>mt p'. fillMatches exampleByteClass exampleProvider nameCandidates = Some (Inr ([mt], p'))
          \<and> FileName mt \<and> length (Fragments mt) = 2"
    by auto
  with ne fn inl show ?thesis by (simp add: list_all_iff)
qed


section \<open>fillContentMatches: the cross-line loop\<close>

lemma extendLineEnd_looping_step:
  assumes ih: "\<And>dat em e y. f dat em e = Some y \<Longrightarrow>
                 \<not> (dat = loopingContent \<and> em = 6 \<and> (e = 4 \<or> e = 2 \<or> e = 1))"
    and b: "(if e < int (length dat) \<and> word_of_int e < em
             then if e + 1 < 0 then Some (Inl SliceBoundsOutOfRange)
                  else f dat em
                        (let k = IndexByte (drop (nat (e + 1)) dat) 10
                         in if k = - 1 then int (length dat) else k)
             else Some (Inr e)) = Some y"
  shows "\<not> (dat = loopingContent \<and> (em :: u32) = 6 \<and> (e = 4 \<or> e = 2 \<or> e = 1))"
proof
  assume h: "dat = loopingContent \<and> em = 6 \<and> (e = 4 \<or> e = 2 \<or> e = 1)"
  then consider "e = 4" | "e = 2" | "e = 1" by blast
  then show False
  proof cases
    case 1
    with h b have "f loopingContent 6 2 = Some y"
      by (simp add: loopingContent_def Let_def)
    from ih [OF this] show False by simp
  next
    case 2
    with h b have "f loopingContent 6 1 = Some y"
      by (simp add: loopingContent_def Let_def)
    from ih [OF this] show False by simp
  next
    case 3
    with h b have "f loopingContent 6 2 = Some y"
      by (simp add: loopingContent_def Let_def)
    from ih [OF this] show False by simp
  qed
qed

lemma extendLineEnd_diverges: "extendLineEnd loopingContent 6 4 = None"
proof (rule ccontr)
  assume "extendLineEnd loopingContent 6 4 \<noteq> None"
  then obtain y where y: "extendLineEnd loopingContent 6 4 = Some y" by blast
  have "\<not> (loopingContent = loopingContent \<and> (6 :: u32) = 6
            \<and> ((4 :: int) = 4 \<or> (4 :: int) = 2 \<or> (4 :: int) = 1))"
    by (rule extendLineEnd.raw_induct
          [where P = "\<lambda>dat em e y. \<not> (dat = loopingContent \<and> em = 6 \<and> (e = 4 \<or> e = 2 \<or> e = 1))",
           OF _ y])
       (rule extendLineEnd_looping_step)
  then show False by simp
qed


text \<open>
  C1. The cross-line loop assigns \<^verbatim>\<open>end\<close> the result of \<^verbatim>\<open>bytes.IndexByte\<close> on the
  tail \<^verbatim>\<open>data[end+1:]\<close>, an index into that tail, not an offset of the content. On
  \<^verbatim>\<open>"a\nbbbbbbbbbb\ncc"\<close> with one candidate for \<^verbatim>\<open>"a\nb"\<close> at offset 0 the line of the
  candidate ends at 1, the match ends at 3, and the next terminator after offset 1 is at
  offset 12; the loop sets the line end to 10, the index of that terminator in the tail
  that starts at offset 2, and the \<^verbatim>\<open>Match\<close> gets \<^verbatim>\<open>LineEnd = 10\<close>, a byte \<^verbatim>\<open>b\<close>
  inside the second line. On \<^verbatim>\<open>"aaaa\nbb\ncc"\<close> with a match from 3 to 6 the loop moves
  the end from 4 to 2, then between 1 and 2 for ever.
\<close>

theorem fillContentMatches_line_end_is_relative:
  "fillContentMatches crossLineProvider [crossLineCandidate] =
     Some (Inr ([\<lparr>Line = [97, 10, 98, 98, 98, 98, 98, 98, 98, 98], LineStart = 0,
                  LineEnd = 10, LineNum = 1, FileName = False,
                  Fragments = [\<lparr>LineOff = 0, MatchLength = 3, Offset = 0\<rparr>],
                  Score = 0\<rparr>],
                crossLineProvider
                  \<lparr>stats := \<lparr>FilesLoaded = 1, BytesLoaded = 15\<rparr>,
                    p_cb := Some [0, 0], p_data := Some crossLineContent,
                    p_nl := Some [1, 12], p_nlBuf := Some [1, 12]\<rparr>))
   \<and> line crossLineCandidate [1, 12] 15 = (1, 0, 1)
   \<and> extendLineEnd crossLineContent 3 1 = Some (Inr 10)
   \<and> crossLineContent ! 1 = 10 \<and> crossLineContent ! 10 = 98 \<and> crossLineContent ! 12 = 10
   \<and> IndexByte (drop 2 crossLineContent) 10 = 10
   \<and> extendLineEnd loopingContent 6 4 = None"
proof -
  have e: "extendLineEnd crossLineContent 3 1 = Some (Inr 10)"
    by (simp add: extendLineEnd.simps crossLineContent_def Let_def)
  have l: "line crossLineCandidate [1, 12] 15 = (1, 0, 1)"
    by (simp add: line_def crossLineCandidate_def sort_Search_def sort_Search_loop.simps Let_def)
  have "fillContentMatches crossLineProvider [crossLineCandidate] =
     Some (Inr ([\<lparr>Line = [97, 10, 98, 98, 98, 98, 98, 98, 98, 98], LineStart = 0,
                  LineEnd = 10, LineNum = 1, FileName = False,
                  Fragments = [\<lparr>LineOff = 0, MatchLength = 3, Offset = 0\<rparr>],
                  Score = 0\<rparr>],
                crossLineProvider
                  \<lparr>stats := \<lparr>FilesLoaded = 1, BytesLoaded = 15\<rparr>,
                    p_cb := Some [0, 0], p_data := Some crossLineContent,
                    p_nl := Some [1, 12], p_nlBuf := Some [1, 12]\<rparr>))"
    by code_simp
  moreover have "crossLineContent ! 1 = 10 \<and> crossLineContent ! 10 = 98
      \<and> crossLineContent ! 12 = 10 \<and> IndexByte (drop 2 crossLineContent) 10 = 10"
    by (simp add: crossLineContent_def)
  ultimately show ?thesis using extendLineEnd_diverges e l by simp
qed

section \<open>caseMatches: the comparison against the packed case bitmap\<close>

lemma compareLoop_result:
  assumes "length fb \<le> length msk" and "length fb \<le> length bts"
  shows "compareLoop fb msk bts i =
           Inr (\<forall>j. i \<le> j \<and> j < length fb \<longrightarrow> fb ! j AND msk ! j = bts ! j)"
  using assms
proof (induction fb msk bts i rule: compareLoop.induct)
  case (1 fb msk bts i)
  show ?case
  proof (cases "i < length fb")
    case False
    then show ?thesis by (subst compareLoop.simps) auto
  next
    case True
    with "1.prems" have ix: "index msk i = Inr (msk ! i)" "index bts i = Inr (bts ! i)"
      by (simp_all add: index_def)
    show ?thesis
    proof (cases "fb ! i AND msk ! i \<noteq> bts ! i")
      case ne: True
      with True ix have "compareLoop fb msk bts i = Inr False"
        by (subst compareLoop.simps) simp
      moreover from ne True
      have "\<not> (\<forall>j. i \<le> j \<and> j < length fb \<longrightarrow> fb ! j AND msk ! j = bts ! j)"
        by blast
      ultimately show ?thesis by simp
    next
      case eq: False
      with True ix have "compareLoop fb msk bts i = compareLoop fb msk bts (i + 1)"
        by (subst compareLoop.simps) simp
      also have "\<dots> = Inr (\<forall>j. i + 1 \<le> j \<and> j < length fb \<longrightarrow> fb ! j AND msk ! j = bts ! j)"
        by (rule "1.IH" [OF True ix eq "1.prems"])
      also have "(\<forall>j. i + 1 \<le> j \<and> j < length fb \<longrightarrow> fb ! j AND msk ! j = bts ! j)
               = (\<forall>j. i \<le> j \<and> j < length fb \<longrightarrow> fb ! j AND msk ! j = bts ! j)"
      proof -
        have "\<And>j. i \<le> j \<longleftrightarrow> j = i \<or> i + 1 \<le> j" by auto
        with eq show ?thesis by auto
      qed
      finally show ?thesis .
    qed
  qed
qed

lemma length_packBits: "length (packBits f n) = n"
  by (simp add: packBits_def)

lemma bit_packBits:
  assumes "j < n" and "b < 8"
  shows "bit (packBits f n ! j) b = f (8 * j + b)"
proof -
  have "packBits f n ! j = horner_sum of_bool 2 (map (\<lambda>b. f (8 * j + b)) [0..<8])"
    using assms(1) by (simp add: packBits_def)
  then show ?thesis
    using assms(2) by (simp add: bit_horner_sum_bit_word_iff)
qed

lemma byte_and_eq_iff:
  fixes x mk b :: u8
  shows "x AND mk = b \<longleftrightarrow> (\<forall>k<8. (bit x k \<and> bit mk k) = bit b k)"
proof
  assume "x AND mk = b"
  then show "\<forall>k<8. (bit x k \<and> bit mk k) = bit b k"
    by (auto simp: bit_and_iff)
next
  assume h: "\<forall>k<8. (bit x k \<and> bit mk k) = bit b k"
  show "x AND mk = b"
    by (rule bit_word_eqI) (use h in \<open>simp add: bit_and_iff\<close>)
qed

lemma unat_startExtend: "unat (startExtend m) = unat (offset m) mod 8"
  by (simp add: startExtend_def unat_mod)

lemma unat_slice_lo: "unat ((offset m - startExtend m) div 8) = unat (offset m) div 8"
proof -
  have le: "startExtend m \<le> offset m"
    by (simp add: word_le_nat_alt unat_startExtend)
  have "unat (offset m - startExtend m) = unat (offset m) - unat (offset m) mod 8"
    using le by (simp add: unat_sub unat_startExtend)
  then have "unat ((offset m - startExtend m) div 8) = (unat (offset m) - unat (offset m) mod 8) div 8"
    by (simp add: unat_div)
  also have "\<dots> = unat (offset m) div 8"
    by presburger
  finally show ?thesis .
qed

lemma round_up_to_byte: "(t + (8 - t mod 8) mod 8) div 8 = (t + 7) div (8 :: nat)"
proof -
  define d r where "d = t div 8" and "r = t mod 8"
  have t: "t = 8 * d + r" and r: "r < 8" by (simp_all add: d_def r_def)
  show ?thesis
  proof (cases "r = 0")
    case True
    with t show ?thesis by simp
  next
    case False
    with r have "(8 - r) mod 8 = 8 - r" by simp
    moreover have "t mod 8 = r" by (simp add: r_def)
    ultimately have "(t + (8 - t mod 8) mod 8) = 8 * (d + 1)" using t r by simp
    then have "(t + (8 - t mod 8) mod 8) div 8 = d + 1" by simp
    moreover have "t + 7 = 8 * (d + 1) + (r - 1)" using t False by simp
    then have "(t + 7) div 8 = d + 1" using r by simp
    ultimately show ?thesis by simp
  qed
qed

lemma unat_slice_hi:
  assumes "unat (offset m) + length (substrBytes m) + 8 \<le> 2 ^ 32"
  shows "unat ((offset m + of_nat (length (substrBytes m)) + endExtend m) div 8)
           = (unat (offset m) + length (substrBytes m) + 7) div 8"
proof -
  define o' where "o' = unat (offset m)"
  define n where "n = length (substrBytes m)"
  have b: "o' + n + 8 \<le> 2 ^ 32" using assms by (simp add: o'_def n_def)
  have n32: "n < 2 ^ 32" using b by simp
  have un: "unat (of_nat n :: u32) = n" using n32 by (simp add: unat_of_nat)
  have pe: "unat (offset m + of_nat n) = o' + n"
  proof -
    have "unat (offset m) + unat (of_nat n :: u32) < 2 ^ 32" using b un by (simp add: o'_def)
    then have "unat (offset m + of_nat n) = unat (offset m) + unat (of_nat n :: u32)"
      by (rule unat_sum_no_wrap)
    with un show ?thesis by (simp add: o'_def)
  qed
  have pm: "unat ((offset m + of_nat n) mod 8) = (o' + n) mod 8"
    by (simp add: unat_mod pe)
  have le8: "(offset m + of_nat n) mod 8 \<le> (8 :: u32)"
    by (simp add: word_le_nat_alt pm)
  have sub: "unat (8 - (offset m + of_nat n) mod 8) = 8 - (o' + n) mod 8"
    using le8 by (simp add: unat_sub pm)
  have ee: "unat (endExtend m) = (8 - (o' + n) mod 8) mod 8"
    by (simp add: endExtend_def unat_mod sub n_def [symmetric])
  have "unat (offset m + of_nat n) + unat (endExtend m) < 2 ^ 32"
    using b unfolding pe ee by simp
  then have "unat (offset m + of_nat n + endExtend m) = unat (offset m + of_nat n) + unat (endExtend m)"
    by (rule unat_sum_no_wrap)
  then have "unat ((offset m + of_nat n + endExtend m) div 8)
               = (o' + n + (8 - (o' + n) mod 8) mod 8) div 8"
    by (simp add: unat_div pe ee)
  also have "\<dots> = (o' + n + 7) div 8"
    by (rule round_up_to_byte)
  finally show ?thesis by (simp add: o'_def n_def)
qed

lemma div_mod_byte:
  fixes b c :: nat
  assumes "b < 8"
  shows "(8 * c + b) div 8 = c" and "(8 * c + b) mod 8 = b"
  using assms by simp_all

lemma templates_compare_iff:
  fixes cb :: "u8 list" and pat :: "u8 list" and o' :: nat
  defines "q \<equiv> o' div 8" and "s \<equiv> o' mod 8"
  defines "L \<equiv> (s + length pat + 7) div 8"
  assumes len: "q + L \<le> length cb"
  shows "(\<forall>i<L. take L (drop q cb) ! i
                  AND packBits (\<lambda>k. s \<le> k \<and> k < s + length pat) L ! i
                = packBits (\<lambda>k. s \<le> k \<and> k < s + length pat \<and> isUpper (pat ! (k - s))) L ! i)
         \<longleftrightarrow> (\<forall>k<length pat. caseBit cb (o' + k) = isUpper (pat ! k))"
    (is "?lhs \<longleftrightarrow> ?rhs")
proof -
  have o: "o' = 8 * q + s" and s8: "s < 8" by (simp_all add: q_def s_def)
  have sl: "\<And>i. i < L \<Longrightarrow> take L (drop q cb) ! i = cb ! (q + i)"
    using len by simp
  have byte: "(take L (drop q cb) ! i
                  AND packBits (\<lambda>k. s \<le> k \<and> k < s + length pat) L ! i
                = packBits (\<lambda>k. s \<le> k \<and> k < s + length pat \<and> isUpper (pat ! (k - s))) L ! i)
        \<longleftrightarrow> (\<forall>b<8. s \<le> 8 * i + b \<and> 8 * i + b < s + length pat \<longrightarrow>
              bit (cb ! (q + i)) b = isUpper (pat ! (8 * i + b - s)))" if i: "i < L" for i
  proof -
    have "(take L (drop q cb) ! i
                  AND packBits (\<lambda>k. s \<le> k \<and> k < s + length pat) L ! i
                = packBits (\<lambda>k. s \<le> k \<and> k < s + length pat \<and> isUpper (pat ! (k - s))) L ! i)
        \<longleftrightarrow> (\<forall>b<8. (bit (cb ! (q + i)) b \<and> (s \<le> 8 * i + b \<and> 8 * i + b < s + length pat))
               = (s \<le> 8 * i + b \<and> 8 * i + b < s + length pat \<and> isUpper (pat ! (8 * i + b - s))))"
      unfolding byte_and_eq_iff sl [OF i]
      using bit_packBits [OF i] by simp
    also have "\<dots> \<longleftrightarrow> (\<forall>b<8. s \<le> 8 * i + b \<and> 8 * i + b < s + length pat \<longrightarrow>
              bit (cb ! (q + i)) b = isUpper (pat ! (8 * i + b - s)))"
      by blast
    finally show ?thesis .
  qed
  have bitwise: "?lhs \<longleftrightarrow>
      (\<forall>i<L. \<forall>b<8. s \<le> 8 * i + b \<and> 8 * i + b < s + length pat \<longrightarrow>
          bit (cb ! (q + i)) b = isUpper (pat ! (8 * i + b - s)))"
    using byte by blast
  show ?thesis
  proof
    assume l: ?lhs
    show ?rhs
    proof (intro allI impI)
      fix k assume k: "k < length pat"
      define i b where "i = (s + k) div 8" and "b = (s + k) mod 8"
      have ib: "s + k = 8 * i + b" "b < 8" by (simp_all add: i_def b_def)
      have "s + k < 8 * L"
      proof -
        have "s + k < s + length pat" using k by simp
        also have "\<dots> \<le> 8 * ((s + length pat + 7) div 8)" by presburger
        finally show ?thesis by (simp add: L_def)
      qed
      with ib have iL: "i < L" by simp
      from l bitwise
      have B: "\<forall>i<L. \<forall>b<8. s \<le> 8 * i + b \<and> 8 * i + b < s + length pat \<longrightarrow>
          bit (cb ! (q + i)) b = isUpper (pat ! (8 * i + b - s))" by blast
      have "s \<le> 8 * i + b \<and> 8 * i + b < s + length pat"
        using ib(1) k by linarith
      with B iL ib(2)
      have "bit (cb ! (q + i)) b = isUpper (pat ! (8 * i + b - s))"
        by blast
      moreover have "8 * i + b - s = k" using ib by simp
      moreover have oe: "o' + k = 8 * (q + i) + b" using o ib(1) by simp
      have "(o' + k) div 8 = q + i" "(o' + k) mod 8 = b"
        unfolding oe by (rule div_mod_byte [OF ib(2)])+
      ultimately show "caseBit cb (o' + k) = isUpper (pat ! k)"
        by (simp add: caseBit_def)
    qed
  next
    assume r: ?rhs
    have "\<forall>i<L. \<forall>b<8. s \<le> 8 * i + b \<and> 8 * i + b < s + length pat \<longrightarrow>
          bit (cb ! (q + i)) b = isUpper (pat ! (8 * i + b - s))"
    proof (intro allI impI)
      fix i b assume "i < L" and b: "b < (8 :: nat)"
        and m: "s \<le> 8 * i + b \<and> 8 * i + b < s + length pat"
      define k where "k = 8 * i + b - s"
      from m have k: "k < length pat" "8 * i + b = s + k" unfolding k_def by linarith+
      then have oe: "o' + k = 8 * (q + i) + b" using o by simp
      have "(o' + k) div 8 = q + i" "(o' + k) mod 8 = b"
        unfolding oe by (rule div_mod_byte [OF b])+
      moreover from r k(1) have "caseBit cb (o' + k) = isUpper (pat ! k)" by blast
      ultimately show "bit (cb ! (q + i)) b = isUpper (pat ! (8 * i + b - s))"
        unfolding caseBit_def k_def by simp
    qed
    with bitwise show ?lhs by simp
  qed
qed

lemma populateCaseBits_keeps:
  "offset (populateCaseBits fcm m) = offset m"
  "substrBytes (populateCaseBits fcm m) = substrBytes m"
  "query (populateCaseBits fcm m) = query m"
  by (simp_all add: populateCaseBits_def split: prod.splits)

lemma caseSlice_populate: "caseSlice (populateCaseBits fcm m) cb = caseSlice m cb"
  by (simp add: caseSlice_def startExtend_def endExtend_def populateCaseBits_keeps)

lemma startExtend_populate: "startExtend (populateCaseBits fcm m) = startExtend m"
  by (simp add: startExtend_def populateCaseBits_keeps)

lemma caseMatches_insensitive:
  "\<not> CaseSensitive (query m) \<Longrightarrow> caseMatches fcm m cb = Inr (True, m)"
  by (simp add: caseMatches_def)

lemma caseMatches_sensitive:
  assumes cs: "CaseSensitive (query m)"
    and sl: "caseSlice m cb = Inr fb"
    and mk: "index (slice_of (caseMask (populateCaseBits fcm m))) (unat (startExtend m)) = Inr msk"
    and bt: "index (slice_of (caseBits (populateCaseBits fcm m))) (unat (startExtend m)) = Inr bts"
    and l1: "length fb \<le> length msk" and l2: "length fb \<le> length bts"
  shows "caseMatches fcm m cb =
           Inr ((\<forall>i<length fb. fb ! i AND msk ! i = bts ! i), populateCaseBits fcm m)"
  using cs
  by (simp add: caseMatches_def Let_def caseSlice_populate startExtend_populate sl mk bt
      compareLoop_result [OF l1 l2])

lemma caseMatches_findCaseMasks:
  assumes cs: "CaseSensitive (query m)" and fresh: "caseMask m = None"
    and nw: "unat (offset m) + length (substrBytes m) + 8 \<le> 2 ^ 32"
    and len: "unat (offset m) + length (substrBytes m) \<le> 8 * length cb"
  shows "caseMatches findCaseMasks m cb =
           Inr ((\<forall>k<length (substrBytes m).
                    caseBit cb (unat (offset m) + k) = isUpper (substrBytes m ! k)),
                populateCaseBits findCaseMasks m)"
proof -
  define o' where "o' = unat (offset m)"
  define pat where "pat = substrBytes m"
  define q where "q = o' div 8"
  define s where "s = o' mod 8"
  define L where "L = (s + length pat + 7) div 8"
  have o: "o' = 8 * q + s" and s8: "s < 8" by (simp_all add: q_def s_def)
  have hi: "(o' + length pat + 7) div 8 = q + L"
  proof -
    have "o' + length pat + 7 = 8 * q + (s + length pat + 7)" using o by simp
    then show ?thesis unfolding L_def by (metis div_mult_self2 mult.commute zero_neq_numeral add.commute)
  qed
  have qL: "q + L \<le> length cb"
  proof -
    have "(o' + length pat + 7) div 8 \<le> (8 * length cb + 7) div 8"
      using len by (intro div_le_mono) (simp add: o'_def pat_def)
    also have "\<dots> = length cb" by simp
    finally show ?thesis using hi by simp
  qed
  have sl: "caseSlice m cb = Inr (take L (drop q cb))"
    using qL
    by (simp add: caseSlice_def sliceRange_def unat_slice_lo unat_slice_hi [OF nw]
        hi [unfolded o'_def pat_def] q_def [unfolded o'_def, symmetric])
  have pm: "populateCaseBits findCaseMasks m =
              m\<lparr>caseMask := Some (fst (findCaseMasks pat)), caseBits := Some (snd (findCaseMasks pat))\<rparr>"
    using cs fresh by (simp add: populateCaseBits_def pat_def split: prod.splits)
  have se: "unat (startExtend m) = s"
    by (simp add: unat_startExtend s_def o'_def)
  have mk: "index (slice_of (caseMask (populateCaseBits findCaseMasks m))) (unat (startExtend m))
              = Inr (packBits (\<lambda>k. s \<le> k \<and> k < s + length pat) L)"
    using s8 by (simp add: pm se slice_of_def index_def findCaseMasks_def L_def del: upt_Suc)
  have bt: "index (slice_of (caseBits (populateCaseBits findCaseMasks m))) (unat (startExtend m))
              = Inr (packBits (\<lambda>k. s \<le> k \<and> k < s + length pat \<and> isUpper (pat ! (k - s))) L)"
    using s8 by (simp add: pm se slice_of_def index_def findCaseMasks_def L_def del: upt_Suc)
  have lfb: "length (take L (drop q cb)) = L" using qL by simp
  have l1: "length (take L (drop q cb)) \<le> length (packBits (\<lambda>k. s \<le> k \<and> k < s + length pat) L)"
    and l2: "length (take L (drop q cb))
               \<le> length (packBits (\<lambda>k. s \<le> k \<and> k < s + length pat \<and> isUpper (pat ! (k - s))) L)"
    by (simp_all add: length_packBits)
  note r = caseMatches_sensitive [OF cs sl mk bt l1 l2]
  note e = templates_compare_iff [of o' pat cb, folded q_def s_def, folded L_def, OF qL]
  show ?thesis
    unfolding r lfb e by (simp add: o'_def pat_def)
qed

text \<open>
  C5. \<^verbatim>\<open>caseMatches\<close> returns true whenever the query is not case-sensitive. When it
  is case-sensitive, the slice \<^verbatim>\<open>fileCaseBits[start/8:end/8]\<close> is in range and the
  tables \<^verbatim>\<open>caseMask[startExtend]\<close> and \<^verbatim>\<open>caseBits[startExtend]\<close> exist and are at
  least as long as the slice, it returns true if and only if every byte \<open>i\<close> of the
  slice satisfies \<^verbatim>\<open>slice[i] & mask[i] == bits[i]\<close>. With the tables that
  \<open>findCaseMasks\<close> builds for the pattern, for a candidate that has no tables cached,
  whose span lies inside the bitmap and inside the 32-bit offset space: it returns true
  when the bitmap holds exactly the pattern's case at the candidate's offset (bit
  \<open>offset + k\<close> is set exactly when pattern byte \<open>k\<close> is upper case), and false when
  the bit of some byte of the span differs from the pattern's case, so when the case of
  any single byte of the span is flipped.
\<close>

theorem caseMatches_compares_case_bitmap:
  "(\<not> CaseSensitive (query m) \<longrightarrow> caseMatches fcm m cb = Inr (True, m))
   \<and> (CaseSensitive (query m) \<longrightarrow>
        (\<forall>fb msk bts.
            caseSlice m cb = Inr fb
            \<and> index (slice_of (caseMask (populateCaseBits fcm m))) (unat (startExtend m)) = Inr msk
            \<and> index (slice_of (caseBits (populateCaseBits fcm m))) (unat (startExtend m)) = Inr bts
            \<and> length fb \<le> length msk \<and> length fb \<le> length bts \<longrightarrow>
            caseMatches fcm m cb =
              Inr ((\<forall>i<length fb. fb ! i AND msk ! i = bts ! i), populateCaseBits fcm m)))
   \<and> (CaseSensitive (query m) \<and> caseMask m = None
        \<and> unat (offset m) + length (substrBytes m) + 8 \<le> 2 ^ 32
        \<and> unat (offset m) + length (substrBytes m) \<le> 8 * length cb \<longrightarrow>
        ((\<forall>k<length (substrBytes m).
             caseBit cb (unat (offset m) + k) = isUpper (substrBytes m ! k)) \<longrightarrow>
           caseMatches findCaseMasks m cb = Inr (True, populateCaseBits findCaseMasks m))
        \<and> ((\<exists>k<length (substrBytes m).
               caseBit cb (unat (offset m) + k) \<noteq> isUpper (substrBytes m ! k)) \<longrightarrow>
             caseMatches findCaseMasks m cb = Inr (False, populateCaseBits findCaseMasks m)))"
proof (intro conjI impI allI)
  assume "\<not> CaseSensitive (query m)"
  then show "caseMatches fcm m cb = Inr (True, m)" by (rule caseMatches_insensitive)
next
  fix fb msk bts
  assume cs: "CaseSensitive (query m)"
    and h: "caseSlice m cb = Inr fb
            \<and> index (slice_of (caseMask (populateCaseBits fcm m))) (unat (startExtend m)) = Inr msk
            \<and> index (slice_of (caseBits (populateCaseBits fcm m))) (unat (startExtend m)) = Inr bts
            \<and> length fb \<le> length msk \<and> length fb \<le> length bts"
  from h have "caseSlice m cb = Inr fb"
    "index (slice_of (caseMask (populateCaseBits fcm m))) (unat (startExtend m)) = Inr msk"
    "index (slice_of (caseBits (populateCaseBits fcm m))) (unat (startExtend m)) = Inr bts"
    "length fb \<le> length msk" "length fb \<le> length bts" by simp_all
  with cs show "caseMatches fcm m cb =
              Inr ((\<forall>i<length fb. fb ! i AND msk ! i = bts ! i), populateCaseBits fcm m)"
    by (rule caseMatches_sensitive)
next
  assume h: "CaseSensitive (query m) \<and> caseMask m = None
        \<and> unat (offset m) + length (substrBytes m) + 8 \<le> 2 ^ 32
        \<and> unat (offset m) + length (substrBytes m) \<le> 8 * length cb"
    and e: "\<forall>k<length (substrBytes m).
             caseBit cb (unat (offset m) + k) = isUpper (substrBytes m ! k)"
  from h have "CaseSensitive (query m)" "caseMask m = None"
    "unat (offset m) + length (substrBytes m) + 8 \<le> 2 ^ 32"
    "unat (offset m) + length (substrBytes m) \<le> 8 * length cb" by simp_all
  from caseMatches_findCaseMasks [OF this] e
  show "caseMatches findCaseMasks m cb = Inr (True, populateCaseBits findCaseMasks m)"
    by simp
next
  assume h: "CaseSensitive (query m) \<and> caseMask m = None
        \<and> unat (offset m) + length (substrBytes m) + 8 \<le> 2 ^ 32
        \<and> unat (offset m) + length (substrBytes m) \<le> 8 * length cb"
    and e: "\<exists>k<length (substrBytes m).
               caseBit cb (unat (offset m) + k) \<noteq> isUpper (substrBytes m ! k)"
  from h have "CaseSensitive (query m)" "caseMask m = None"
    "unat (offset m) + length (substrBytes m) + 8 \<le> 2 ^ 32"
    "unat (offset m) + length (substrBytes m) \<le> 8 * length cb" by simp_all
  from caseMatches_findCaseMasks [OF this] e
  show "caseMatches findCaseMasks m cb = Inr (False, populateCaseBits findCaseMasks m)"
    by auto
qed

theorem caseMatches_compares_case_bitmap_witness:
  "CaseSensitive (query caseCandidate) \<and> caseMask caseCandidate = None
   \<and> unat (offset caseCandidate) + length (substrBytes caseCandidate) + 8 \<le> 2 ^ 32
   \<and> unat (offset caseCandidate) + length (substrBytes caseCandidate) \<le> 8 * length [0 :: u8, 2]
   \<and> caseMatches findCaseMasks caseCandidate [0, 2]
       = Inr (True, populateCaseBits findCaseMasks caseCandidate)
   \<and> caseMatches findCaseMasks caseCandidate [0, 6]
       = Inr (False, populateCaseBits findCaseMasks caseCandidate)"
proof -
  have h: "CaseSensitive (query caseCandidate) \<and> caseMask caseCandidate = None
        \<and> unat (offset caseCandidate) + length (substrBytes caseCandidate) + 8 \<le> 2 ^ 32
        \<and> unat (offset caseCandidate) + length (substrBytes caseCandidate) \<le> 8 * length cb"
    if "length cb = 2" for cb :: "u8 list"
    using that by (simp add: caseCandidate_def)
  have exact: "\<forall>k<length (substrBytes caseCandidate).
         caseBit [0, 2] (unat (offset caseCandidate) + k) = isUpper (substrBytes caseCandidate ! k)"
    by (simp add: caseCandidate_def caseBit_def isUpper_def All_less_Suc)
  have flipped: "\<exists>k<length (substrBytes caseCandidate).
         caseBit [0, 6] (unat (offset caseCandidate) + k) \<noteq> isUpper (substrBytes caseCandidate ! k)"
    by (rule exI [of _ 1]) (simp add: caseCandidate_def caseBit_def isUpper_def)
  have h2: "length [0 :: u8, 2] = 2" and h6: "length [0 :: u8, 6] = 2" by simp_all
  from caseMatches_compares_case_bitmap [of caseCandidate findCaseMasks "[0, 2]"]
    h [OF h2] exact
  have a: "caseMatches findCaseMasks caseCandidate [0, 2]
       = Inr (True, populateCaseBits findCaseMasks caseCandidate)" by blast
  from caseMatches_compares_case_bitmap [of caseCandidate findCaseMasks "[0, 6]"]
    h [OF h6] flipped
  have b: "caseMatches findCaseMasks caseCandidate [0, 6]
       = Inr (False, populateCaseBits findCaseMasks caseCandidate)" by blast
  from h [OF h2] a b show ?thesis by simp
qed

end
